theory Spec2Isabelle
  imports Main "HOL-Library.Word"
begin

section \<open>The slot forest of main.c\<close>

text \<open>
  \<^verbatim>\<open>struct slot_set { unsigned int available_slot; unsigned int parent; unsigned int rank; }\<close>

  The fields \<open>available_slot\<close> and \<open>parent\<close> hold array indices: the code only ever
  copies them, compares them and uses them as subscripts (the one subtraction on a slot
  index, \<^verbatim>\<open>index_of_slot_to_schedule - 1\<close>, is guarded by a test against 0), so they are
  natural numbers here, as are \<open>size\<close> (written \<open>sz\<close>) and the loop counters, which stay
  below it. The field \<open>rank\<close> is incremented, so it is a 32-bit word and \<open>+\<close> wraps.
  The array \<^verbatim>\<open>slot_set slot[]\<close> is a list; a subscript outside the list is undefined
  behaviour in C and is the fault \<open>OutOfBounds\<close> here.
\<close>

record slot_set =
  available_slot :: nat
  parent :: nat
  rank :: "32 word"

datatype fault = OutOfBounds

text \<open>\<^verbatim>\<open>make_set\<close> (lines 129-133).\<close>

definition make_set :: "slot_set list \<Rightarrow> nat \<Rightarrow> fault + slot_set list" where
  "make_set slot i =
     (if i < length slot
      then Inr (slot[i := \<lparr>available_slot = i, parent = i, rank = 0\<rparr>])
      else Inl OutOfBounds)"

text \<open>
  \<^verbatim>\<open>find_set\<close> (lines 154-161). The recursion follows the parent fields and does not
  return on a cyclic array, so the function lives in the option monad: \<open>None\<close> is "does
  not return". The recursive call reads the array as it is; the two writes happen on the
  array it returns, the second one reading the parent just written.
\<close>

partial_function (option) find_set ::
  "slot_set list \<Rightarrow> nat \<Rightarrow> (fault + nat \<times> slot_set list) option" where
  "find_set slot i =
     (if length slot \<le> i then Some (Inl OutOfBounds)
      else if i \<noteq> parent (slot ! i) then
        Option.bind (find_set slot (parent (slot ! i)))
          (\<lambda>res. case res of
             Inl e \<Rightarrow> Some (Inl e)
           | Inr (r, slot1) \<Rightarrow>
               (let slot2 = slot1[i := (slot1 ! i)\<lparr>parent := r\<rparr>] in
                if length slot2 \<le> parent (slot2 ! i) then Some (Inl OutOfBounds)
                else
                  (let slot3 = slot2[i := (slot2 ! i)
                         \<lparr>available_slot := available_slot (slot2 ! parent (slot2 ! i))\<rparr>]
                   in Some (Inr (parent (slot3 ! i), slot3)))))
      else Some (Inr (parent (slot ! i), slot)))"

declare find_set.simps [code]

text \<open>
  \<^verbatim>\<open>merge\<close> (lines 139-152), the textbook's link. The statements run in the source's
  order, each reading the array the previous one wrote.
\<close>

definition merge :: "slot_set list \<Rightarrow> nat \<Rightarrow> nat \<Rightarrow> fault + slot_set list" where
  "merge slot i j =
     (if length slot \<le> i \<or> length slot \<le> j then Inl OutOfBounds
      else if rank (slot ! j) < rank (slot ! i) then
        (let slot1 = slot[j := (slot ! j)\<lparr>parent := i\<rparr>];
             slot2 = slot1[i := (slot1 ! i)\<lparr>available_slot := available_slot (slot1 ! j)\<rparr>]
         in Inr slot2)
      else
        (let slot1 = slot[i := (slot ! i)\<lparr>parent := j\<rparr>] in
         if rank (slot1 ! i) = rank (slot1 ! j)
         then Inr (slot1[j := (slot1 ! j)\<lparr>rank := rank (slot1 ! i) + 1\<rparr>])
         else Inr slot1))"

text \<open>
  \<^verbatim>\<open>unite\<close> (lines 135-137): \<^verbatim>\<open>merge(slot, find_set(slot, i), find_set(slot, j))\<close>. C leaves
  the order of the two calls open; \<open>unite\<close> takes them left to right and
  \<open>unite_right_first\<close> right to left. On a forest the two agree
  (\<open>unite_order_irrelevant\<close> below), and the development works with \<open>unite\<close>.
\<close>

definition unite :: "slot_set list \<Rightarrow> nat \<Rightarrow> nat \<Rightarrow> (fault + slot_set list) option" where
  "unite slot i j =
     (case find_set slot i of
        None \<Rightarrow> None
      | Some (Inl e) \<Rightarrow> Some (Inl e)
      | Some (Inr (ri, slot1)) \<Rightarrow>
          (case find_set slot1 j of
             None \<Rightarrow> None
           | Some (Inl e) \<Rightarrow> Some (Inl e)
           | Some (Inr (rj, slot2)) \<Rightarrow> Some (merge slot2 ri rj)))"

definition unite_right_first ::
  "slot_set list \<Rightarrow> nat \<Rightarrow> nat \<Rightarrow> (fault + slot_set list) option" where
  "unite_right_first slot i j =
     (case find_set slot j of
        None \<Rightarrow> None
      | Some (Inl e) \<Rightarrow> Some (Inl e)
      | Some (Inr (rj, slot1)) \<Rightarrow>
          (case find_set slot1 i of
             None \<Rightarrow> None
           | Some (Inl e) \<Rightarrow> Some (Inl e)
           | Some (Inr (ri, slot2)) \<Rightarrow> Some (merge slot2 ri rj)))"

text \<open>
  The expression \<^verbatim>\<open>slot[find_set(slot, i)].available_slot\<close> of lines 109 and 194: the value
  read at the representative, and the array as \<^verbatim>\<open>find_set\<close> left it.
\<close>

definition representative_slot ::
  "slot_set list \<Rightarrow> nat \<Rightarrow> (fault + nat \<times> slot_set list) option" where
  "representative_slot slot i =
     (case find_set slot i of
        None \<Rightarrow> None
      | Some (Inl e) \<Rightarrow> Some (Inl e)
      | Some (Inr (r, slot1)) \<Rightarrow>
          (if length slot1 \<le> r then Some (Inl OutOfBounds)
           else Some (Inr (available_slot (slot1 ! r), slot1))))"

text \<open>
  \<^verbatim>\<open>display_all_sets\<close> (lines 163-201). Only its third loop touches the array; the row it
  prints (one representative per slot, printed one-based) is returned zero-based.
\<close>

function display_loop ::
  "slot_set list \<Rightarrow> nat \<Rightarrow> nat \<Rightarrow> nat list \<Rightarrow> (fault + slot_set list \<times> nat list) option" where
  "display_loop slot sz i row =
     (if i < sz then
        (case representative_slot slot i of
           None \<Rightarrow> None
         | Some (Inl e) \<Rightarrow> Some (Inl e)
         | Some (Inr (v, slot1)) \<Rightarrow> display_loop slot1 sz (i + 1) (row @ [v]))
      else Some (Inr (slot, row)))"
  by pat_completeness auto
termination
  by (relation "measure (\<lambda>(slot, sz, i, row). sz - i)") auto

definition display_all_sets ::
  "slot_set list \<Rightarrow> nat \<Rightarrow> (fault + slot_set list \<times> nat list) option" where
  "display_all_sets slot sz = display_loop slot sz 0 []"

text \<open>
  The initialisation loop of \<^verbatim>\<open>main\<close> (lines 97-99) over the uninitialised array.
\<close>

function init_loop :: "slot_set list \<Rightarrow> nat \<Rightarrow> nat \<Rightarrow> fault + slot_set list" where
  "init_loop slot sz i =
     (if i < sz then
        (case make_set slot i of
           Inl e \<Rightarrow> Inl e
         | Inr slot1 \<Rightarrow> init_loop slot1 sz (i + 1))
      else Inr slot)"
  by pat_completeness auto
termination
  by (relation "measure (\<lambda>(slot, sz, i). sz - i)") auto

text \<open>What the initialisation loop leaves: every slot its own singleton set.\<close>

definition initial_forest :: "nat \<Rightarrow> slot_set list" where
  "initial_forest sz = map (\<lambda>i. \<lparr>available_slot = i, parent = i, rank = 0\<rparr>) [0..<sz]"

text \<open>
  \<^verbatim>\<open>size - 1\<close> in \<^verbatim>\<open>unsigned int\<close> arithmetic (lines 82 and 113): it wraps when \<open>size\<close>
  is 0.
\<close>

definition last_slot :: "nat \<Rightarrow> nat" where
  "last_slot sz = (if sz = 0 then 2 ^ 32 - 1 else sz - 1)"

text \<open>
  One iteration of the scheduling loop of \<^verbatim>\<open>main\<close> (lines 109-118), for task \<open>i\<close>.
  \<open>out\<close> collects the slots printed so far (zero-based; the program prints them
  one-based) and is returned also when the iteration faults. The source comment calls
  \<^verbatim>\<open>display_all_sets\<close> optional; \<open>diag i\<close> says whether iteration \<open>i\<close> calls it, and
  \<^verbatim>\<open>main\<close> has \<open>diag = (\<lambda>i. True)\<close>. A \<open>diag\<close> that is false at \<open>i\<close> stops iteration \<open>i\<close>
  where \<^verbatim>\<open>main\<close> is about to print the table. The array of deadlines has the length of
  the list.
\<close>

definition sched_body ::
  "(nat \<Rightarrow> bool) \<Rightarrow> nat \<Rightarrow> nat list \<Rightarrow> nat \<Rightarrow> slot_set list \<Rightarrow> nat list
     \<Rightarrow> (nat list \<times> (fault + slot_set list)) option" where
  "sched_body diag sz deadline_of_task i slot out =
     (if length deadline_of_task \<le> i then Some (out, Inl OutOfBounds)
      else
        (case representative_slot slot (deadline_of_task ! i) of
           None \<Rightarrow> None
         | Some (Inl e) \<Rightarrow> Some (out, Inl e)
         | Some (Inr (index_of_slot_to_schedule, slot1)) \<Rightarrow>
             (case (if i \<noteq> last_slot sz
                    then unite slot1 index_of_slot_to_schedule
                           (if index_of_slot_to_schedule = 0 then last_slot sz
                            else index_of_slot_to_schedule - 1)
                    else Some (Inr slot1)) of
                None \<Rightarrow> None
              | Some (Inl e) \<Rightarrow> Some (out @ [index_of_slot_to_schedule], Inl e)
              | Some (Inr slot2) \<Rightarrow>
                  (case (if diag i then display_all_sets slot2 sz
                         else Some (Inr (slot2, []))) of
                     None \<Rightarrow> None
                   | Some (Inl e) \<Rightarrow> Some (out @ [index_of_slot_to_schedule], Inl e)
                   | Some (Inr (slot3, row)) \<Rightarrow>
                       Some (out @ [index_of_slot_to_schedule], Inr slot3)))))"

text \<open>
  The loop itself (line 108). \<open>stop\<close> is the loop bound: \<^verbatim>\<open>main\<close> runs to \<open>stop = sz\<close>,
  and a smaller \<open>stop\<close> gives the state in which the loop reaches iteration \<open>stop\<close>.
\<close>

function sched_loop ::
  "(nat \<Rightarrow> bool) \<Rightarrow> nat \<Rightarrow> nat list \<Rightarrow> nat \<Rightarrow> nat \<Rightarrow> slot_set list \<Rightarrow> nat list
     \<Rightarrow> (nat list \<times> (fault + slot_set list)) option" where
  "sched_loop diag sz deadline_of_task stop i slot out =
     (if i < stop then
        (case sched_body diag sz deadline_of_task i slot out of
           None \<Rightarrow> None
         | Some (out1, Inl e) \<Rightarrow> Some (out1, Inl e)
         | Some (out1, Inr slot1) \<Rightarrow> sched_loop diag sz deadline_of_task stop (i + 1) slot1 out1)
      else Some (out, Inr slot))"
  by pat_completeness auto
termination
  by (relation "measure (\<lambda>(diag, sz, ds, stop, i, slot, out). stop - i)") auto

text \<open>
  \<^verbatim>\<open>main\<close> from line 97 on: \<open>mem\<close> is the uninitialised array \<^verbatim>\<open>slot_set slot[size]\<close>.
  \<open>run_until\<close> is \<^verbatim>\<open>main\<close> observed when its scheduling loop reaches iteration \<open>stop\<close>;
  the whole run is \<open>stop = sz\<close>.
\<close>

definition run_until ::
  "(nat \<Rightarrow> bool) \<Rightarrow> nat \<Rightarrow> nat list \<Rightarrow> slot_set list \<Rightarrow> nat
     \<Rightarrow> (nat list \<times> (fault + slot_set list)) option" where
  "run_until diag sz deadline_of_task mem stop =
     (case init_loop mem sz 0 of
        Inl e \<Rightarrow> Some ([], Inl e)
      | Inr slot \<Rightarrow> sched_loop diag sz deadline_of_task stop 0 slot [])"

definition scheduler ::
  "(nat \<Rightarrow> bool) \<Rightarrow> nat \<Rightarrow> nat list \<Rightarrow> slot_set list
     \<Rightarrow> (nat list \<times> (fault + slot_set list)) option" where
  "scheduler diag sz deadline_of_task mem = run_until diag sz deadline_of_task mem sz"

declare display_loop.simps [simp del] init_loop.simps [simp del] sched_loop.simps [simp del]

section \<open>Forests\<close>

text \<open>
  \<open>root_of slot i r\<close>: following the parent fields from \<open>i\<close> inside the array ends in
  the root \<open>r\<close>. \<open>on_path slot i x\<close>: \<open>x\<close> is met on the way from \<open>i\<close> to its root. An
  array is a forest when every slot has a root.
\<close>

definition is_root :: "slot_set list \<Rightarrow> nat \<Rightarrow> bool" where
  "is_root slot r \<longleftrightarrow> r < length slot \<and> parent (slot ! r) = r"

inductive root_of :: "slot_set list \<Rightarrow> nat \<Rightarrow> nat \<Rightarrow> bool" for slot where
  at_root: "i < length slot \<Longrightarrow> parent (slot ! i) = i \<Longrightarrow> root_of slot i i"
| above: "i < length slot \<Longrightarrow> parent (slot ! i) \<noteq> i \<Longrightarrow>
          root_of slot (parent (slot ! i)) r \<Longrightarrow> root_of slot i r"

inductive on_path :: "slot_set list \<Rightarrow> nat \<Rightarrow> nat \<Rightarrow> bool" for slot where
  start: "i < length slot \<Longrightarrow> on_path slot i i"
| further: "i < length slot \<Longrightarrow> parent (slot ! i) \<noteq> i \<Longrightarrow>
            on_path slot (parent (slot ! i)) x \<Longrightarrow> on_path slot i x"

definition forest :: "slot_set list \<Rightarrow> bool" where
  "forest slot \<longleftrightarrow> (\<forall>i<length slot. \<exists>r. root_of slot i r)"

text \<open>
  The root computed with a bound on the number of parent links followed; it decides
  \<open>root_of\<close> on a concrete array.
\<close>

fun root_within :: "nat \<Rightarrow> slot_set list \<Rightarrow> nat \<Rightarrow> nat option" where
  "root_within 0 slot i = None"
| "root_within (Suc n) slot i =
     (if length slot \<le> i then None
      else if parent (slot ! i) = i then Some i
      else root_within n slot (parent (slot ! i)))"

text \<open>
  Path compression as a relation between two arrays: every slot is as it was, or it is a
  non-root that now points at its root and carries the root's \<open>available_slot\<close>.
\<close>

definition compressed :: "slot_set list \<Rightarrow> slot_set list \<Rightarrow> bool" where
  "compressed slot slot' \<longleftrightarrow>
     length slot' = length slot \<and>
     (\<forall>x<length slot. slot' ! x = slot ! x \<or>
        (\<exists>r. root_of slot x r \<and> x \<noteq> r \<and>
           slot' ! x = (slot ! x)\<lparr>parent := r, available_slot := available_slot (slot ! r)\<rparr>))"

section \<open>The greedy choice\<close>

text \<open>
  \<open>A\<close> is the set of slots already assigned. \<open>latest_free_upto A d s\<close>: \<open>s\<close> is the
  latest slot among \<open>0..d\<close> that is not assigned. \<open>latest_free A sz d s\<close>: \<open>s\<close> is that slot
  or, when every slot of \<open>0..d\<close> is assigned, the latest unassigned slot of all \<open>sz\<close> slots.
  \<open>slot_before\<close> is the circular predecessor that the loop passes to \<^verbatim>\<open>unite\<close>.
\<close>

definition latest_free_upto :: "nat set \<Rightarrow> nat \<Rightarrow> nat \<Rightarrow> bool" where
  "latest_free_upto A d s \<longleftrightarrow> s \<le> d \<and> s \<notin> A \<and> (\<forall>z\<in>{s<..d}. z \<in> A)"

definition latest_free :: "nat set \<Rightarrow> nat \<Rightarrow> nat \<Rightarrow> nat \<Rightarrow> bool" where
  "latest_free A sz d s \<longleftrightarrow>
     latest_free_upto A d s \<or>
     ((\<forall>z\<in>{..d}. z \<in> A) \<and> 0 < sz \<and> latest_free_upto A (sz - 1) s)"

definition slot_before :: "nat \<Rightarrow> nat \<Rightarrow> nat" where
  "slot_before sz s = (if s = 0 then sz - 1 else s - 1)"

text \<open>
  The invariant of the scheduling loop: the array is a forest over \<open>sz\<close> slots, the
  representative of every slot holds the greedy choice for that slot, and no two
  representatives hold the same slot.
\<close>

definition sched_inv :: "nat \<Rightarrow> slot_set list \<Rightarrow> nat set \<Rightarrow> bool" where
  "sched_inv sz slot A \<longleftrightarrow>
     length slot = sz \<and> forest slot \<and>
     (\<forall>x r. root_of slot x r \<longrightarrow> latest_free A sz x (available_slot (slot ! r))) \<and>
     (\<forall>r1 r2. is_root slot r1 \<and> is_root slot r2 \<and>
        available_slot (slot ! r1) = available_slot (slot ! r2) \<longrightarrow> r1 = r2)"

section \<open>Properties of the forest operations\<close>

subsection \<open>Roots and path compression\<close>

lemma root_of_in_range: "root_of slot i r \<Longrightarrow> i < length slot"
  by (erule root_of.cases) auto

lemma root_of_is_root: "root_of slot i r \<Longrightarrow> is_root slot r"
  by (induction rule: root_of.induct) (auto simp: is_root_def)

lemma root_of_unique: "root_of slot i r \<Longrightarrow> root_of slot i r' \<Longrightarrow> r = r'"
proof (induction arbitrary: r' rule: root_of.induct)
  case (at_root i)
  from at_root.prems at_root.hyps show ?case
    by (cases rule: root_of.cases) auto
next
  case (above i r)
  from above.prems above.hyps(1,2) have "root_of slot (parent (slot ! i)) r'"
    by (cases rule: root_of.cases) auto
  then show ?case by (rule above.IH)
qed

lemma is_root_root_of: "is_root slot r \<Longrightarrow> root_of slot r r"
  by (simp add: is_root_def root_of.at_root)

lemma root_of_root_eq: "is_root slot x \<Longrightarrow> root_of slot x r \<Longrightarrow> r = x"
  using is_root_root_of root_of_unique by blast

lemma compressed_refl: "compressed slot slot"
  by (simp add: compressed_def)

lemma compressed_root_same:
  assumes "compressed slot slot'" "is_root slot r"
  shows "slot' ! r = slot ! r"
proof -
  from assms(2) have r: "r < length slot" by (simp add: is_root_def)
  from assms(1) r have "slot' ! r = slot ! r \<or> (\<exists>q. root_of slot r q \<and> r \<noteq> q)"
    unfolding compressed_def by blast
  with root_of_root_eq[OF assms(2)] show ?thesis by blast
qed

lemma compressed_is_root: "compressed slot slot' \<Longrightarrow> is_root slot r \<Longrightarrow> is_root slot' r"
  using compressed_root_same[of slot slot' r] by (simp add: is_root_def compressed_def)

lemma compressed_root_of:
  assumes c: "compressed slot slot'"
  shows "root_of slot x r \<Longrightarrow> root_of slot' x r"
proof (induction rule: root_of.induct)
  case (at_root i)
  then have "is_root slot i" by (simp add: is_root_def)
  then show ?case using compressed_is_root[OF c] is_root_root_of by blast
next
  case (above i r)
  have len: "length slot' = length slot" using c by (simp add: compressed_def)
  have rr: "is_root slot r" using above.hyps(3) by (rule root_of_is_root)
  have ir: "root_of slot i r" using above.hyps by (auto intro: root_of.above)
  have inr: "i \<noteq> r" using above.hyps(2) rr by (auto simp: is_root_def)
  from c above.hyps(1) consider
    (same) "slot' ! i = slot ! i"
    | (moved) q where "root_of slot i q" "i \<noteq> q"
        "slot' ! i = (slot ! i)\<lparr>parent := q, available_slot := available_slot (slot ! q)\<rparr>"
    unfolding compressed_def by blast
  then show ?case
  proof cases
    case same
    with above len show ?thesis by (auto intro: root_of.above)
  next
    case moved
    have "q = r" using moved(1) ir by (rule root_of_unique)
    have "root_of slot' r r" using compressed_is_root[OF c rr] by (rule is_root_root_of)
    with moved \<open>q = r\<close> inr above.hyps(1) len show ?thesis
      by (auto intro: root_of.above)
  qed
qed

lemma compressed_root_of_conv:
  assumes c: "compressed slot slot'"
  shows "root_of slot' x r \<Longrightarrow> root_of slot x r"
proof (induction rule: root_of.induct)
  case (at_root i)
  have len: "length slot' = length slot" using c by (simp add: compressed_def)
  from c at_root(1) len consider
    (same) "slot' ! i = slot ! i"
    | (moved) q where "root_of slot i q" "i \<noteq> q"
        "slot' ! i = (slot ! i)\<lparr>parent := q, available_slot := available_slot (slot ! q)\<rparr>"
    unfolding compressed_def by auto
  then show ?case
  proof cases
    case same
    with at_root len show ?thesis by (auto intro: root_of.at_root)
  next
    case moved
    with at_root show ?thesis by simp
  qed
next
  case (above i r)
  have len: "length slot' = length slot" using c by (simp add: compressed_def)
  from c above.hyps(1) len consider
    (same) "slot' ! i = slot ! i"
    | (moved) q where "root_of slot i q" "i \<noteq> q"
        "slot' ! i = (slot ! i)\<lparr>parent := q, available_slot := available_slot (slot ! q)\<rparr>"
    unfolding compressed_def by auto
  then show ?case
  proof cases
    case same
    with above len show ?thesis by (auto intro: root_of.above)
  next
    case moved
    then have p: "parent (slot' ! i) = q" by simp
    have "is_root slot q" using moved(1) by (rule root_of_is_root)
    then have "r = q" using above.IH p root_of_root_eq by auto
    with moved(1) show ?thesis by simp
  qed
qed

lemma compressed_root_of_iff:
  "compressed slot slot' \<Longrightarrow> root_of slot' x r \<longleftrightarrow> root_of slot x r"
  using compressed_root_of compressed_root_of_conv by blast

lemma compressed_forest: "compressed slot slot' \<Longrightarrow> forest slot \<Longrightarrow> forest slot'"
  unfolding forest_def using compressed_root_of by (metis compressed_def)

lemma compressed_is_root_iff:
  "compressed slot slot' \<Longrightarrow> is_root slot' r \<longleftrightarrow> is_root slot r"
  by (meson compressed_root_of_iff is_root_root_of root_of_is_root)

lemma compressed_rank:
  "compressed slot slot' \<Longrightarrow> x < length slot \<Longrightarrow> rank (slot' ! x) = rank (slot ! x)"
  unfolding compressed_def by auto

lemma compressed_trans:
  assumes ab: "compressed a b" and bc: "compressed b c"
  shows "compressed a c"
  unfolding compressed_def
proof (intro conjI allI impI)
  show len: "length c = length a" using ab bc by (simp add: compressed_def)
  fix x assume x: "x < length a"
  have lenb: "length b = length a" using ab by (simp add: compressed_def)
  from ab x consider
    (same) "b ! x = a ! x"
    | (moved) q where "root_of a x q" "x \<noteq> q"
        "b ! x = (a ! x)\<lparr>parent := q, available_slot := available_slot (a ! q)\<rparr>"
    unfolding compressed_def by blast
  note ab_cases = this
  from bc x lenb consider
    (same2) "c ! x = b ! x"
    | (moved2) q where "root_of b x q" "x \<noteq> q"
        "c ! x = (b ! x)\<lparr>parent := q, available_slot := available_slot (b ! q)\<rparr>"
    unfolding compressed_def by auto
  then show "c ! x = a ! x \<or>
         (\<exists>r. root_of a x r \<and> x \<noteq> r \<and>
              c ! x = (a ! x)\<lparr>parent := r, available_slot := available_slot (a ! r)\<rparr>)"
  proof cases
    case same2
    with ab_cases show ?thesis by metis
  next
    case moved2
    have aq: "root_of a x q" using moved2(1) compressed_root_of_conv[OF ab] by blast
    then have "is_root a q" by (rule root_of_is_root)
    then have bq: "b ! q = a ! q" using compressed_root_same[OF ab] by blast
    from ab_cases have "c ! x = (a ! x)\<lparr>parent := q, available_slot := available_slot (a ! q)\<rparr>"
    proof cases
      case same
      with moved2 bq show ?thesis by simp
    next
      case (moved q')
      with moved2 bq show ?thesis by simp
    qed
    with aq moved2(2) show ?thesis by blast
  qed
qed

subsection \<open>\<open>find_set\<close>\<close>

lemma find_set_at_root:
  "is_root slot i \<Longrightarrow> find_set slot i = Some (Inr (i, slot))"
  by (subst find_set.simps) (simp add: is_root_def)

lemma find_set_out_of_bounds:
  "length slot \<le> i \<Longrightarrow> find_set slot i = Some (Inl OutOfBounds)"
  by (subst find_set.simps) simp

lemma find_set_above:
  assumes i: "i < length slot" and p: "parent (slot ! i) \<noteq> i"
    and rec: "find_set slot (parent (slot ! i)) = Some (Inr (r, slot1))"
    and len: "length slot1 = length slot" and r: "r < length slot" and ir: "i \<noteq> r"
  shows "find_set slot i =
           Some (Inr (r, slot1[i := (slot1 ! i)\<lparr>parent := r,
                                                  available_slot := available_slot (slot1 ! r)\<rparr>]))"
  using assms by (subst find_set.simps) (simp add: Let_def)

lemma find_set_root_of:
  "root_of slot i r \<Longrightarrow>
     \<exists>slot'. find_set slot i = Some (Inr (r, slot')) \<and> compressed slot slot' \<and>
       (\<forall>x. on_path slot i x \<and> x \<noteq> r \<longrightarrow>
          slot' ! x = (slot ! x)\<lparr>parent := r, available_slot := available_slot (slot ! r)\<rparr>) \<and>
       (\<forall>x. \<not> on_path slot i x \<longrightarrow> slot' ! x = slot ! x)"
proof (induction rule: root_of.induct)
  case (at_root i)
  then have "is_root slot i" by (simp add: is_root_def)
  moreover have "on_path slot i x \<Longrightarrow> x = i" for x
    by (erule on_path.cases) (use at_root in auto)
  ultimately show ?case
    using find_set_at_root compressed_refl by blast
next
  case (above i r)
  then obtain slot1 where rec: "find_set slot (parent (slot ! i)) = Some (Inr (r, slot1))"
    and c1: "compressed slot slot1"
    and path1: "\<forall>x. on_path slot (parent (slot ! i)) x \<and> x \<noteq> r \<longrightarrow>
          slot1 ! x = (slot ! x)\<lparr>parent := r, available_slot := available_slot (slot ! r)\<rparr>"
    and off1: "\<forall>x. \<not> on_path slot (parent (slot ! i)) x \<longrightarrow> slot1 ! x = slot ! x"
    by blast
  have len: "length slot1 = length slot" using c1 by (simp add: compressed_def)
  have rr: "is_root slot r" using above.hyps(3) by (rule root_of_is_root)
  then have r: "r < length slot" by (simp add: is_root_def)
  have ir: "i \<noteq> r" using above.hyps(2) rr by (auto simp: is_root_def)
  have iroot: "root_of slot i r" using above.hyps by (auto intro: root_of.above)
  let ?new = "\<lparr>available_slot = available_slot (slot ! r), parent = r, rank = rank (slot ! i)\<rparr>"
  let ?slot' = "slot1[i := (slot1 ! i)\<lparr>parent := r, available_slot := available_slot (slot1 ! r)\<rparr>]"
  have fs: "find_set slot i = Some (Inr (r, ?slot'))"
    using above.hyps(1,2) rec len r ir by (rule find_set_above)
  have r1: "slot1 ! r = slot ! r" using c1 rr by (rule compressed_root_same)
  have i1: "(slot1 ! i)\<lparr>parent := r, available_slot := available_slot (slot ! r)\<rparr>
             = (slot ! i)\<lparr>parent := r, available_slot := available_slot (slot ! r)\<rparr>"
    using c1 above.hyps(1) unfolding compressed_def by auto
  have new_i: "?slot' ! i = (slot ! i)\<lparr>parent := r, available_slot := available_slot (slot ! r)\<rparr>"
    using above.hyps(1) len r1 i1 by simp
  have other: "x \<noteq> i \<Longrightarrow> ?slot' ! x = slot1 ! x" for x by simp
  have "compressed slot ?slot'"
    unfolding compressed_def
  proof (intro conjI allI impI)
    show "length ?slot' = length slot" using len by simp
    fix x assume x: "x < length slot"
    show "?slot' ! x = slot ! x \<or>
         (\<exists>r. root_of slot x r \<and> x \<noteq> r \<and>
              ?slot' ! x = (slot ! x)\<lparr>parent := r, available_slot := available_slot (slot ! r)\<rparr>)"
    proof (cases "x = i")
      case True
      with new_i iroot ir show ?thesis by blast
    next
      case False
      with c1 x other[OF False] show ?thesis unfolding compressed_def by simp
    qed
  qed
  moreover have "\<forall>x. on_path slot i x \<and> x \<noteq> r \<longrightarrow>
          ?slot' ! x = (slot ! x)\<lparr>parent := r, available_slot := available_slot (slot ! r)\<rparr>"
  proof (intro allI impI, elim conjE)
    fix x assume op: "on_path slot i x" and xr: "x \<noteq> r"
    show "?slot' ! x = (slot ! x)\<lparr>parent := r, available_slot := available_slot (slot ! r)\<rparr>"
    proof (cases "x = i")
      case True
      with new_i show ?thesis by simp
    next
      case False
      with op have "on_path slot (parent (slot ! i)) x"
        by (cases rule: on_path.cases) auto
      with path1 xr other[OF False] show ?thesis by simp
    qed
  qed
  moreover have "\<forall>x. \<not> on_path slot i x \<longrightarrow> ?slot' ! x = slot ! x"
  proof (intro allI impI)
    fix x assume no: "\<not> on_path slot i x"
    then have "x \<noteq> i" using above.hyps(1) on_path.start by blast
    moreover have "\<not> on_path slot (parent (slot ! i)) x"
      using no above.hyps(1,2) on_path.further by blast
    ultimately show "?slot' ! x = slot ! x" using off1 by simp
  qed
  ultimately show ?case using fs by blast
qed

subsection \<open>\<open>merge\<close> and \<open>unite\<close>\<close>

lemma link_root_of:
  assumes len: "length slot' = length slot"
    and v: "is_root slot v" and l: "is_root slot l" and lv: "l \<noteq> v"
    and pl: "parent (slot' ! l) = v"
    and others: "\<forall>x<length slot. x \<noteq> l \<longrightarrow> parent (slot' ! x) = parent (slot ! x)"
  shows "root_of slot x q \<Longrightarrow> root_of slot' x (if q = l then v else q)"
proof (induction rule: root_of.induct)
  case (at_root i)
  have v': "root_of slot' v v"
    using v lv others len by (auto simp: is_root_def intro: root_of.at_root)
  show ?case
  proof (cases "i = l")
    case True
    with v' pl lv l len show ?thesis by (auto simp: is_root_def intro: root_of.above)
  next
    case False
    with at_root others len show ?thesis by (auto intro: root_of.at_root)
  qed
next
  case (above i r)
  have "i \<noteq> l" using above.hyps(2) l by (auto simp: is_root_def)
  with above others len show ?case by (auto intro: root_of.above)
qed

lemma merge_roots:
  assumes i: "is_root slot i" and j: "is_root slot j" and ij: "i \<noteq> j"
  defines "v \<equiv> (if rank (slot ! j) < rank (slot ! i) then i else j)"
  defines "l \<equiv> (if rank (slot ! j) < rank (slot ! i) then j else i)"
  shows "\<exists>slot'. merge slot i j = Inr slot' \<and> length slot' = length slot \<and>
           parent (slot' ! l) = v \<and> parent (slot' ! v) = v \<and>
           available_slot (slot' ! v) = available_slot (slot ! j) \<and>
           (\<forall>x. x \<noteq> i \<and> x \<noteq> j \<longrightarrow> slot' ! x = slot ! x) \<and>
           (\<forall>x<length slot. x \<noteq> l \<longrightarrow> parent (slot' ! x) = parent (slot ! x))"
  using assms by (auto simp: merge_def is_root_def Let_def nth_list_update)

lemma merge_root_of:
  assumes i: "is_root slot i" and j: "is_root slot j" and ij: "i \<noteq> j"
    and m: "merge slot i j = Inr slot'"
  defines "v \<equiv> (if rank (slot ! j) < rank (slot ! i) then i else j)"
  shows "root_of slot x q \<Longrightarrow> root_of slot' x (if q = i \<or> q = j then v else q)"
proof -
  define l where "l = (if rank (slot ! j) < rank (slot ! i) then j else i)"
  from merge_roots[OF i j ij] m have len: "length slot' = length slot"
    and pl: "parent (slot' ! l) = v"
    and others: "\<forall>x<length slot. x \<noteq> l \<longrightarrow> parent (slot' ! x) = parent (slot ! x)"
    by (auto simp: v_def l_def)
  have v: "is_root slot v" and l: "is_root slot l" and lv: "l \<noteq> v"
    using i j ij by (auto simp: v_def l_def)
  assume "root_of slot x q"
  from link_root_of[OF len v l lv pl others this]
  have "root_of slot' x (if q = l then v else q)" .
  moreover have "(if q = l then v else q) = (if q = i \<or> q = j then v else q)"
    by (auto simp: v_def l_def)
  ultimately show ?thesis by simp
qed

lemma unite_distinct:
  assumes a: "root_of slot a ra" and b: "root_of slot b rb" and ne: "ra \<noteq> rb"
  shows "\<exists>slot' v. unite slot a b = Some (Inr slot') \<and> length slot' = length slot \<and>
           (v = ra \<or> v = rb) \<and> is_root slot' v \<and>
           available_slot (slot' ! v) = available_slot (slot ! rb) \<and>
           (\<forall>x q. root_of slot x q \<longrightarrow> root_of slot' x (if q = ra \<or> q = rb then v else q)) \<and>
           (\<forall>q. is_root slot q \<and> q \<noteq> ra \<and> q \<noteq> rb \<longrightarrow> slot' ! q = slot ! q)"
proof -
  from find_set_root_of[OF a] obtain slot1 where
    f1: "find_set slot a = Some (Inr (ra, slot1))" and c1: "compressed slot slot1" by blast
  have "root_of slot1 b rb" using b c1 by (rule compressed_root_of[rotated])
  from find_set_root_of[OF this] obtain slot2 where
    f2: "find_set slot1 b = Some (Inr (rb, slot2))" and c2: "compressed slot1 slot2" by blast
  have c: "compressed slot slot2" using c1 c2 by (rule compressed_trans)
  have len2: "length slot2 = length slot" using c by (simp add: compressed_def)
  have ra: "is_root slot ra" and rb: "is_root slot rb"
    using a b by (auto intro: root_of_is_root)
  have ra2: "is_root slot2 ra" and rb2: "is_root slot2 rb"
    using ra rb c by (auto intro: compressed_is_root)
  define v where "v = (if rank (slot2 ! rb) < rank (slot2 ! ra) then ra else rb)"
  define l where "l = (if rank (slot2 ! rb) < rank (slot2 ! ra) then rb else ra)"
  from merge_roots[OF ra2 rb2 ne] obtain slot' where
    m: "merge slot2 ra rb = Inr slot'" and len: "length slot' = length slot2"
    and pv: "parent (slot' ! v) = v"
    and av: "available_slot (slot' ! v) = available_slot (slot2 ! rb)"
    and same: "\<forall>x. x \<noteq> ra \<and> x \<noteq> rb \<longrightarrow> slot' ! x = slot2 ! x"
    by (auto simp: v_def l_def)
  have u: "unite slot a b = Some (Inr slot')" using f1 f2 m by (simp add: unite_def)
  have vcases: "v = ra \<or> v = rb" by (simp add: v_def)
  have vroot: "is_root slot' v" using pv vcases ra2 rb2 len by (auto simp: is_root_def)
  have av': "available_slot (slot' ! v) = available_slot (slot ! rb)"
    using av compressed_root_same[OF c rb] by simp
  have ro: "root_of slot' x (if q = ra \<or> q = rb then v else q)" if "root_of slot x q" for x q
  proof -
    from that c have "root_of slot2 x q" by (rule compressed_root_of[rotated])
    from merge_root_of[OF ra2 rb2 ne m this] show ?thesis unfolding v_def .
  qed
  have keep: "slot' ! q = slot ! q" if "is_root slot q" "q \<noteq> ra" "q \<noteq> rb" for q
    using that same compressed_root_same[OF c that(1)] by simp
  from u len len2 vcases vroot av' ro keep show ?thesis by (intro exI[of _ slot'] exI[of _ v]) simp
qed

lemma unite_same:
  assumes a: "root_of slot a r" and b: "root_of slot b r"
  shows "\<exists>slot1. unite slot a b =
             Some (Inr (slot1[r := (slot1 ! r)\<lparr>rank := rank (slot ! r) + 1\<rparr>])) \<and> compressed slot slot1"
proof -
  from find_set_root_of[OF a] obtain slot1 where
    f1: "find_set slot a = Some (Inr (r, slot1))" and c1: "compressed slot slot1" by blast
  have "root_of slot1 b r" using b c1 by (rule compressed_root_of[rotated])
  from find_set_root_of[OF this] obtain slot2 where
    f2: "find_set slot1 b = Some (Inr (r, slot2))" and c2: "compressed slot1 slot2" by blast
  have c: "compressed slot slot2" using c1 c2 by (rule compressed_trans)
  have rr: "is_root slot r" using a by (rule root_of_is_root)
  have r2: "is_root slot2 r" using rr c by (auto intro: compressed_is_root)
  have same: "slot2 ! r = slot ! r" using c rr by (rule compressed_root_same)
  have "(slot2 ! r)\<lparr>parent := r\<rparr> = slot2 ! r" using r2 by (simp add: is_root_def)
  then have "slot2[r := (slot2 ! r)\<lparr>parent := r\<rparr>] = slot2" by simp
  then have "merge slot2 r r = Inr (slot2[r := (slot2 ! r)\<lparr>rank := rank (slot2 ! r) + 1\<rparr>])"
    using r2 unfolding merge_def is_root_def Let_def by simp
  then have "merge slot2 r r = Inr (slot2[r := (slot2 ! r)\<lparr>rank := rank (slot ! r) + 1\<rparr>])"
    using same by simp
  with f1 f2 c show ?thesis by (auto simp: unite_def)
qed

subsection \<open>The order of the two lookups in \<open>unite\<close>\<close>

lemma on_path_root_of: "on_path slot i x \<Longrightarrow> root_of slot i r \<Longrightarrow> root_of slot x r"
proof (induction rule: on_path.induct)
  case (start i)
  then show ?case by simp
next
  case (further i x)
  from further.prems further.hyps(1,2) have "root_of slot (parent (slot ! i)) r"
    by (cases rule: root_of.cases) auto
  then show ?case by (rule further.IH)
qed

lemma root_on_path: "root_of slot i r \<Longrightarrow> on_path slot i r"
  by (induction rule: root_of.induct) (auto intro: on_path.intros)

lemma on_path_trans: "on_path slot i j \<Longrightarrow> on_path slot j x \<Longrightarrow> on_path slot i x"
  by (induction rule: on_path.induct) (auto intro: on_path.further)

lemma on_path_at_root: "on_path slot r x \<Longrightarrow> is_root slot r \<Longrightarrow> x = r"
  by (erule on_path.cases) (auto simp: is_root_def)

lemma compressed_on_path:
  assumes c: "compressed slot slot1"
  shows "on_path slot1 j x \<Longrightarrow> on_path slot j x"
proof (induction rule: on_path.induct)
  case (start j)
  then show ?case using c by (auto simp: compressed_def intro: on_path.start)
next
  case (further j x)
  have j: "j < length slot" using further.hyps(1) c by (simp add: compressed_def)
  from c j consider
    (same) "slot1 ! j = slot ! j"
    | (moved) q where "root_of slot j q" "j \<noteq> q"
        "slot1 ! j = (slot ! j)\<lparr>parent := q, available_slot := available_slot (slot ! q)\<rparr>"
    unfolding compressed_def by blast
  then show ?case
  proof cases
    case same
    with further j show ?thesis by (auto intro: on_path.further)
  next
    case moved
    then have "on_path slot q x" using further.IH by simp
    then have "x = q" using root_of_is_root[OF moved(1)] by (rule on_path_at_root)
    with root_on_path[OF moved(1)] show ?thesis by simp
  qed
qed

lemma on_path_after_find:
  assumes ri: "root_of slot i ri" and len: "length slot1 = length slot"
    and on: "\<forall>x. on_path slot i x \<and> x \<noteq> ri \<longrightarrow>
          slot1 ! x = (slot ! x)\<lparr>parent := ri, available_slot := available_slot (slot ! ri)\<rparr>"
    and off: "\<forall>x. \<not> on_path slot i x \<longrightarrow> slot1 ! x = slot ! x"
    and root: "slot1 ! ri = slot ! ri"
  shows "on_path slot j x \<Longrightarrow> on_path slot1 j x \<or> (on_path slot i x \<and> x \<noteq> ri)"
proof (induction rule: on_path.induct)
  case (start j)
  then show ?case using len by (auto intro: on_path.start)
next
  case (further j x)
  have jx: "on_path slot j x" using further.hyps by (auto intro: on_path.further)
  have rr: "ri < length slot" "parent (slot ! ri) = ri"
    using root_of_is_root[OF ri] by (auto simp: is_root_def)
  from further.IH show ?case
  proof
    assume "on_path slot i x \<and> x \<noteq> ri"
    then show ?thesis by simp
  next
    assume p1: "on_path slot1 (parent (slot ! j)) x"
    show ?thesis
    proof (cases "on_path slot i j \<and> j \<noteq> ri")
      case True
      then have pj: "parent (slot1 ! j) = ri" using on by simp
      have ix: "on_path slot i x" using True jx on_path_trans by blast
      show ?thesis
      proof (cases "x = ri")
        case x: True
        have "on_path slot1 ri ri" using rr len by (auto intro: on_path.start)
        then have "on_path slot1 j ri"
          using pj True further.hyps(1) len by (auto intro: on_path.further)
        with x show ?thesis by simp
      next
        case False
        with ix show ?thesis by simp
      qed
    next
      case False
      then have "slot1 ! j = slot ! j" using on off root by (cases "j = ri") auto
      with p1 further.hyps(1,2) len show ?thesis by (auto intro: on_path.further)
    qed
  qed
qed

lemma two_finds:
  assumes ri: "root_of slot i ri" and rj: "root_of slot j rj"
  shows "\<exists>slot1 slot2. find_set slot i = Some (Inr (ri, slot1)) \<and>
           find_set slot1 j = Some (Inr (rj, slot2)) \<and> length slot2 = length slot \<and>
           (\<forall>x. slot2 ! x =
              (if on_path slot i x \<and> x \<noteq> ri
               then (slot ! x)\<lparr>parent := ri, available_slot := available_slot (slot ! ri)\<rparr>
               else if on_path slot j x \<and> x \<noteq> rj
               then (slot ! x)\<lparr>parent := rj, available_slot := available_slot (slot ! rj)\<rparr>
               else slot ! x))"
proof -
  from find_set_root_of[OF ri] obtain slot1 where
    f1: "find_set slot i = Some (Inr (ri, slot1))" and c1: "compressed slot slot1"
    and on1: "\<forall>x. on_path slot i x \<and> x \<noteq> ri \<longrightarrow>
          slot1 ! x = (slot ! x)\<lparr>parent := ri, available_slot := available_slot (slot ! ri)\<rparr>"
    and off1: "\<forall>x. \<not> on_path slot i x \<longrightarrow> slot1 ! x = slot ! x"
    by blast
  have rj1: "root_of slot1 j rj" using rj c1 by (rule compressed_root_of[rotated])
  from find_set_root_of[OF rj1] obtain slot2 where
    f2: "find_set slot1 j = Some (Inr (rj, slot2))" and c2: "compressed slot1 slot2"
    and on2: "\<forall>x. on_path slot1 j x \<and> x \<noteq> rj \<longrightarrow>
          slot2 ! x = (slot1 ! x)\<lparr>parent := rj, available_slot := available_slot (slot1 ! rj)\<rparr>"
    and off2: "\<forall>x. \<not> on_path slot1 j x \<longrightarrow> slot2 ! x = slot1 ! x"
    by blast
  have len1: "length slot1 = length slot" and len2: "length slot2 = length slot"
    using c1 c2 by (simp_all add: compressed_def)
  have root_i: "slot1 ! ri = slot ! ri"
    using c1 root_of_is_root[OF ri] by (rule compressed_root_same)
  have root_j: "slot1 ! rj = slot ! rj"
    using c1 root_of_is_root[OF rj] by (rule compressed_root_same)
  have root_j2: "slot2 ! rj = slot1 ! rj"
    using c2 root_of_is_root[OF rj1] by (rule compressed_root_same)
  have s1: "slot1 ! x = (if on_path slot i x \<and> x \<noteq> ri
               then (slot ! x)\<lparr>parent := ri, available_slot := available_slot (slot ! ri)\<rparr>
               else slot ! x)" for x
    using on1 off1 root_i by (cases "x = ri") auto
  have "slot2 ! x =
              (if on_path slot i x \<and> x \<noteq> ri
               then (slot ! x)\<lparr>parent := ri, available_slot := available_slot (slot ! ri)\<rparr>
               else if on_path slot j x \<and> x \<noteq> rj
               then (slot ! x)\<lparr>parent := rj, available_slot := available_slot (slot ! rj)\<rparr>
               else slot ! x)" for x
  proof (cases "on_path slot1 j x \<and> x \<noteq> rj")
    case True
    then have jx: "on_path slot j x" using compressed_on_path[OF c1] by blast
    have 2: "slot2 ! x = (slot1 ! x)\<lparr>parent := rj, available_slot := available_slot (slot ! rj)\<rparr>"
      using on2 True root_j by simp
    show ?thesis
    proof (cases "on_path slot i x \<and> x \<noteq> ri")
      case ix: True
      have "root_of slot x ri" "root_of slot x rj"
        using ix jx ri rj on_path_root_of by blast+
      then have "ri = rj" by (rule root_of_unique)
      with 2 s1[of x] ix show ?thesis by simp
    next
      case nix: False
      then have "slot1 ! x = slot ! x" using s1[of x] by (simp only: if_False)
      with 2 have "slot2 ! x
          = (slot ! x)\<lparr>parent := rj, available_slot := available_slot (slot ! rj)\<rparr>"
        by simp
      moreover have jt: "on_path slot j x \<and> x \<noteq> rj" using jx True by simp
      ultimately show ?thesis by (simp only: nix jt if_True if_False simp_thms)
    qed
  next
    case False
    then have 2: "slot2 ! x = slot1 ! x" using off2 root_j2 by (cases "x = rj") auto
    have "\<not> (on_path slot j x \<and> x \<noteq> rj)" if "\<not> (on_path slot i x \<and> x \<noteq> ri)"
      using on_path_after_find[OF ri len1 on1 off1 root_i, of j x] that False by blast
    with 2 s1[of x] show ?thesis by auto
  qed
  with f1 f2 len2 show ?thesis by blast
qed

lemma unite_order_irrelevant:
  assumes "forest slot" "i < length slot" "j < length slot"
  shows "unite_right_first slot i j = unite slot i j"
proof -
  from assms obtain ri where ri: "root_of slot i ri" by (auto simp: forest_def)
  from assms obtain rj where rj: "root_of slot j rj" by (auto simp: forest_def)
  from two_finds[OF ri rj] obtain a1 a2 where
    a: "find_set slot i = Some (Inr (ri, a1))" "find_set a1 j = Some (Inr (rj, a2))"
       "length a2 = length slot"
    and ax: "\<forall>x. a2 ! x =
              (if on_path slot i x \<and> x \<noteq> ri
               then (slot ! x)\<lparr>parent := ri, available_slot := available_slot (slot ! ri)\<rparr>
               else if on_path slot j x \<and> x \<noteq> rj
               then (slot ! x)\<lparr>parent := rj, available_slot := available_slot (slot ! rj)\<rparr>
               else slot ! x)"
    by blast
  from two_finds[OF rj ri] obtain b1 b2 where
    b: "find_set slot j = Some (Inr (rj, b1))" "find_set b1 i = Some (Inr (ri, b2))"
       "length b2 = length slot"
    and bx: "\<forall>x. b2 ! x =
              (if on_path slot j x \<and> x \<noteq> rj
               then (slot ! x)\<lparr>parent := rj, available_slot := available_slot (slot ! rj)\<rparr>
               else if on_path slot i x \<and> x \<noteq> ri
               then (slot ! x)\<lparr>parent := ri, available_slot := available_slot (slot ! ri)\<rparr>
               else slot ! x)"
    by blast
  have "a2 ! x = b2 ! x" for x
  proof (cases "(on_path slot i x \<and> x \<noteq> ri) \<and> (on_path slot j x \<and> x \<noteq> rj)")
    case True
    then have "root_of slot x ri" "root_of slot x rj"
      using ri rj on_path_root_of by blast+
    then have "ri = rj" by (rule root_of_unique)
    with ax bx show ?thesis by simp
  next
    case False
    with ax bx show ?thesis by auto
  qed
  then have "a2 = b2" using a(3) b(3) by (intro nth_equalityI) simp_all
  with a b show ?thesis by (simp add: unite_def unite_right_first_def)
qed

section \<open>The scheduling loop\<close>

subsection \<open>The greedy choice when one more slot is taken\<close>

lemma latest_free_self: "s \<notin> A \<Longrightarrow> latest_free A sz s s"
  by (simp add: latest_free_def latest_free_upto_def)

lemma latest_free_range: "latest_free A sz x a \<Longrightarrow> x < sz \<Longrightarrow> a < sz \<and> a \<notin> A"
  by (auto simp: latest_free_def latest_free_upto_def)

lemma latest_free_upto_unique:
  "latest_free_upto A d a \<Longrightarrow> latest_free_upto A d b \<Longrightarrow> a = b"
  unfolding latest_free_upto_def
  by (metis greaterThanAtMost_iff linorder_neqE_nat)

lemma latest_free_unique: "latest_free A sz x a \<Longrightarrow> latest_free A sz x b \<Longrightarrow> a = b"
  unfolding latest_free_def
  by (metis latest_free_upto_unique latest_free_upto_def atMost_iff)

lemma latest_free_insert_other:
  "latest_free A sz x a \<Longrightarrow> a \<noteq> s \<Longrightarrow> latest_free (insert s A) sz x a"
  by (auto simp: latest_free_def latest_free_upto_def)

lemma latest_free_before_other:
  assumes "latest_free A sz (slot_before sz s) a" "s < sz" "z \<notin> A" "z < sz" "z \<noteq> s"
  shows "a \<noteq> s"
proof
  assume "a = s"
  with assms(1) have lf: "latest_free A sz (slot_before sz s) s" by simp
  show False
  proof (cases "s = 0")
    case True
    with lf assms(2) have "\<forall>y. 0 < y \<and> y \<le> sz - 1 \<longrightarrow> y \<in> A"
      by (auto simp: latest_free_def latest_free_upto_def slot_before_def)
    with assms(3,4,5) True show False by (metis Suc_pred' less_Suc_eq_le not_gr_zero gr_implies_not0)
  next
    case False
    with lf have a: "\<forall>y. y \<le> s - 1 \<longrightarrow> y \<in> A" and b: "\<forall>y. s < y \<and> y \<le> sz - 1 \<longrightarrow> y \<in> A"
      by (auto simp: latest_free_def latest_free_upto_def slot_before_def)
    from assms(3,4,5) a b show False
      by (metis One_nat_def Suc_pred' less_Suc_eq_le linorder_neqE_nat not_gr_zero gr_implies_not0 less_nat_zero_code)
  qed
qed

lemma latest_free_insert_taken:
  assumes "latest_free A sz x s" "x < sz" "latest_free A sz (slot_before sz s) a" "a \<noteq> s"
  shows "latest_free (insert s A) sz x a"
proof (cases "s = 0")
  case True
  from assms(1) True have "\<forall>y\<in>{..x}. y \<in> insert 0 A"
    by (auto simp: latest_free_def latest_free_upto_def intro: gr0I)
  moreover from assms(3,4) True have "latest_free_upto (insert 0 A) (sz - 1) a"
    by (auto simp: latest_free_def latest_free_upto_def slot_before_def)
  ultimately show ?thesis using True assms(2) by (auto simp: latest_free_def)
next
  case False
  then have sb: "slot_before sz s = s - 1" by (simp add: slot_before_def)
  from assms(1) consider
    (direct) "s \<le> x" "s \<notin> A" "\<forall>y. s < y \<and> y \<le> x \<longrightarrow> y \<in> A"
    | (wrapped) "\<forall>y. y \<le> x \<longrightarrow> y \<in> A" "s \<le> sz - 1" "s \<notin> A"
        "\<forall>y. s < y \<and> y \<le> sz - 1 \<longrightarrow> y \<in> A"
    by (auto simp: latest_free_def latest_free_upto_def)
  note first = this
  from assms(3) sb consider
    (direct') "a \<le> s - 1" "a \<notin> A" "\<forall>y. a < y \<and> y \<le> s - 1 \<longrightarrow> y \<in> A"
    | (wrapped') "\<forall>y. y \<le> s - 1 \<longrightarrow> y \<in> A" "a \<le> sz - 1" "a \<notin> A"
        "\<forall>y. a < y \<and> y \<le> sz - 1 \<longrightarrow> y \<in> A"
    by (auto simp: latest_free_def latest_free_upto_def)
  then show ?thesis
  proof cases
    case direct'
    have below: "y \<in> insert s A" if "a < y" "y \<le> s" for y
      using that direct'(3) by (cases "y = s") auto
    from first show ?thesis
    proof cases
      case direct
      have "\<forall>y\<in>{a<..x}. y \<in> insert s A"
        using below direct(3) by (metis greaterThanAtMost_iff insertI2 not_le_imp_less)
      with direct' direct assms(4) False have "latest_free_upto (insert s A) x a"
        by (auto simp: latest_free_upto_def)
      then show ?thesis by (simp add: latest_free_def)
    next
      case wrapped
      have "\<forall>y\<in>{a<..sz - 1}. y \<in> insert s A"
        using below wrapped(4) by (metis greaterThanAtMost_iff insertI2 not_le_imp_less)
      with direct' wrapped assms(4) False have "latest_free_upto (insert s A) (sz - 1) a"
        by (auto simp: latest_free_upto_def)
      with wrapped(1) assms(2) show ?thesis by (auto simp: latest_free_def)
    qed
  next
    case wrapped'
    have up: "latest_free_upto (insert s A) (sz - 1) a"
      using wrapped' assms(4) by (auto simp: latest_free_upto_def)
    have "y \<in> insert s A" if "y \<le> x" for y
    proof (cases "y \<le> s")
      case True
      with wrapped'(1) show ?thesis by (cases "y = s") auto
    next
      case False
      with first that show ?thesis by cases auto
    qed
    with up assms(2) show ?thesis by (auto simp: latest_free_def)
  qed
qed

subsection \<open>The loop invariant\<close>

lemma representative_slot_root_of:
  assumes "root_of slot i r"
  shows "\<exists>slot'. representative_slot slot i = Some (Inr (available_slot (slot ! r), slot')) \<and>
           compressed slot slot'"
proof -
  from find_set_root_of[OF assms] obtain slot' where
    f: "find_set slot i = Some (Inr (r, slot'))" and c: "compressed slot slot'" by blast
  have rr: "is_root slot r" using assms by (rule root_of_is_root)
  have same: "slot' ! r = slot ! r" using c rr by (rule compressed_root_same)
  have "r < length slot'" using c rr by (simp add: compressed_def is_root_def)
  with f c same show ?thesis by (simp add: representative_slot_def)
qed

lemma sched_inv_compressed:
  assumes inv: "sched_inv sz slot A" and c: "compressed slot slot'"
  shows "sched_inv sz slot' A"
  unfolding sched_inv_def
proof (intro conjI allI impI)
  show "length slot' = sz" using inv c by (simp add: sched_inv_def compressed_def)
  show "forest slot'" using inv c by (auto simp: sched_inv_def intro: compressed_forest)
next
  fix x r assume "root_of slot' x r"
  then have r: "root_of slot x r" using c by (simp add: compressed_root_of_iff)
  then have "slot' ! r = slot ! r" using c by (auto intro: compressed_root_same root_of_is_root)
  with r inv show "latest_free A sz x (available_slot (slot' ! r))" by (simp add: sched_inv_def)
next
  fix r1 r2
  assume "is_root slot' r1 \<and> is_root slot' r2 \<and>
       available_slot (slot' ! r1) = available_slot (slot' ! r2)"
  then have "is_root slot r1 \<and> is_root slot r2 \<and>
       available_slot (slot ! r1) = available_slot (slot ! r2)"
    using c by (auto simp: compressed_is_root_iff compressed_root_same)
  with inv show "r1 = r2" unfolding sched_inv_def by blast
qed

lemma sched_inv_lookup:
  assumes inv: "sched_inv sz slot A" and d: "d < sz"
  shows "\<exists>s slot'. representative_slot slot d = Some (Inr (s, slot')) \<and>
           latest_free A sz d s \<and> compressed slot slot'"
proof -
  from inv d obtain r where r: "root_of slot d r" by (auto simp: sched_inv_def forest_def)
  with inv have "latest_free A sz d (available_slot (slot ! r))" by (simp add: sched_inv_def)
  with representative_slot_root_of[OF r] show ?thesis by blast
qed

lemma sched_inv_unite:
  assumes inv: "sched_inv sz slot A" and s: "s \<notin> A" "s < sz"
    and z: "z \<notin> A" "z < sz" "z \<noteq> s"
  shows "\<exists>slot'. unite slot s (slot_before sz s) = Some (Inr slot') \<and>
           sched_inv sz slot' (insert s A)"
proof -
  let ?p = "slot_before sz s"
  have p: "?p < sz" using s(2) by (auto simp: slot_before_def)
  have len: "length slot = sz" and fo: "forest slot"
    using inv by (simp_all add: sched_inv_def)
  have lf: "latest_free A sz x (available_slot (slot ! r))" if "root_of slot x r" for x r
    using inv that by (simp add: sched_inv_def)
  have inj: "r1 = r2" if "is_root slot r1" "is_root slot r2"
        "available_slot (slot ! r1) = available_slot (slot ! r2)" for r1 r2
    using inv that unfolding sched_inv_def by blast
  from fo s(2) len obtain rs where rs: "root_of slot s rs" by (auto simp: forest_def)
  from fo p len obtain rp where rp: "root_of slot ?p rp" by (auto simp: forest_def)
  have as: "available_slot (slot ! rs) = s"
    using lf[OF rs] latest_free_self[OF s(1)] by (rule latest_free_unique)
  define a where "a = available_slot (slot ! rp)"
  have lfa: "latest_free A sz ?p a" using lf[OF rp] by (simp add: a_def)
  have a_ne: "a \<noteq> s" using lfa s(2) z by (rule latest_free_before_other)
  have ne: "rs \<noteq> rp" using as a_ne by (auto simp: a_def)
  from unite_distinct[OF rs rp ne] obtain slot' v where
    u: "unite slot s ?p = Some (Inr slot')" and len': "length slot' = length slot"
    and v: "v = rs \<or> v = rp" and vroot: "is_root slot' v"
    and av0: "available_slot (slot' ! v) = available_slot (slot ! rp)"
    and ro0: "\<forall>x q. root_of slot x q \<longrightarrow> root_of slot' x (if q = rs \<or> q = rp then v else q)"
    and keep0: "\<forall>q. is_root slot q \<and> q \<noteq> rs \<and> q \<noteq> rp \<longrightarrow> slot' ! q = slot ! q"
    by (elim exE conjE)
  have av: "available_slot (slot' ! v) = a" using av0 by (simp add: a_def)
  have ro: "root_of slot' x (if q = rs \<or> q = rp then v else q)" if "root_of slot x q" for x q
    using ro0 that by blast
  have keep: "slot' ! q = slot ! q" if "is_root slot q" "q \<noteq> rs" "q \<noteq> rp" for q
    using keep0 that by blast
  have fo': "forest slot'"
    unfolding forest_def
  proof (intro allI impI)
    fix i assume "i < length slot'"
    with fo len' obtain q where "root_of slot i q" by (auto simp: forest_def)
    from ro[OF this] show "\<exists>r. root_of slot' i r" by blast
  qed
  have new_root: "\<exists>q. root_of slot x q \<and> r = (if q = rs \<or> q = rp then v else q)"
    if "root_of slot' x r" for x r
  proof -
    from that have "x < length slot" using len' root_of_in_range by fastforce
    with fo obtain q where q: "root_of slot x q" by (auto simp: forest_def)
    from ro[OF q] that have "r = (if q = rs \<or> q = rp then v else q)" by (rule root_of_unique[rotated])
    with q show ?thesis by blast
  qed
  have other_avail: "available_slot (slot ! q) \<noteq> s \<and> available_slot (slot ! q) \<noteq> a"
    if "is_root slot q" "q \<noteq> rs" "q \<noteq> rp" for q
  proof -
    have "is_root slot rs" "is_root slot rp" using rs rp by (auto intro: root_of_is_root)
    with that inj[of q rs] inj[of q rp] as show ?thesis unfolding a_def by metis
  qed
  have "sched_inv sz slot' (insert s A)"
    unfolding sched_inv_def
  proof (intro conjI allI impI)
    show "length slot' = sz" using len len' by simp
    show "forest slot'" by (rule fo')
  next
    fix x r assume xr: "root_of slot' x r"
    then have x: "x < sz" using len len' root_of_in_range by fastforce
    from new_root[OF xr] obtain q where q: "root_of slot x q"
      and r: "r = (if q = rs \<or> q = rp then v else q)" by blast
    have qroot: "is_root slot q" using q by (rule root_of_is_root)
    show "latest_free (insert s A) sz x (available_slot (slot' ! r))"
    proof (cases "q = rs")
      case True
      with q as lf have "latest_free A sz x s" by fastforce
      from latest_free_insert_taken[OF this x lfa a_ne] r True av show ?thesis by simp
    next
      case False
      show ?thesis
      proof (cases "q = rp")
        case True
        with q lf have "latest_free A sz x a" unfolding a_def by blast
        from latest_free_insert_other[OF this a_ne] r True av show ?thesis by simp
      next
        case qp: False
        from other_avail[OF qroot False qp] lf[OF q] keep[OF qroot False qp] r False qp
        show ?thesis by (simp add: latest_free_insert_other)
      qed
    qed
  next
    fix r1 r2
    assume h: "is_root slot' r1 \<and> is_root slot' r2 \<and>
       available_slot (slot' ! r1) = available_slot (slot' ! r2)"
    have cls: "r = v \<or> (is_root slot r \<and> r \<noteq> rs \<and> r \<noteq> rp \<and> slot' ! r = slot ! r)"
      if "is_root slot' r" for r
    proof -
      from new_root[OF is_root_root_of[OF that]] obtain q where q: "root_of slot r q"
        and r: "r = (if q = rs \<or> q = rp then v else q)" by blast
      show ?thesis
      proof (cases "q = rs \<or> q = rp")
        case True with r show ?thesis by simp
      next
        case False
        with r have "r = q" by simp
        with q False keep root_of_is_root show ?thesis by blast
      qed
    qed
    from h have r1: "is_root slot' r1" and r2: "is_root slot' r2"
      and eq: "available_slot (slot' ! r1) = available_slot (slot' ! r2)" by blast+
    show "r1 = r2"
    proof (cases "r1 = v")
      case True
      show ?thesis
      proof (cases "r2 = v")
        case True with \<open>r1 = v\<close> show ?thesis by simp
      next
        case False
        with cls[OF r2] have "is_root slot r2" "r2 \<noteq> rs" "r2 \<noteq> rp" "slot' ! r2 = slot ! r2"
          by blast+
        with other_avail[of r2] eq av True show ?thesis by simp
      qed
    next
      case False
      with cls[OF r1] have 1: "is_root slot r1" "r1 \<noteq> rs" "r1 \<noteq> rp" "slot' ! r1 = slot ! r1"
        by blast+
      show ?thesis
      proof (cases "r2 = v")
        case True
        with other_avail[of r1] 1 eq av show ?thesis by simp
      next
        case r2v: False
        with cls[OF r2] have "is_root slot r2" "slot' ! r2 = slot ! r2" by blast+
        with 1 eq inj[of r1 r2] show ?thesis by simp
      qed
    qed
  qed
  with u show ?thesis by blast
qed

subsection \<open>The diagnostic table, the initialisation and one iteration\<close>

lemma display_loop_compressed:
  "forest slot \<Longrightarrow> length slot = sz \<Longrightarrow> n = sz - i \<Longrightarrow>
     \<exists>slot' row'. display_loop slot sz i row = Some (Inr (slot', row')) \<and> compressed slot slot'"
proof (induction n arbitrary: slot i row)
  case 0
  then show ?case by (subst display_loop.simps) (simp add: compressed_refl)
next
  case (Suc n)
  then have i: "i < sz" by simp
  with Suc.prems obtain r where "root_of slot i r" by (auto simp: forest_def)
  from representative_slot_root_of[OF this] obtain slot1 where
    rs: "representative_slot slot i = Some (Inr (available_slot (slot ! r), slot1))"
    and c1: "compressed slot slot1" by blast
  have "forest slot1" "length slot1 = sz" "n = sz - (i + 1)"
    using c1 Suc.prems by (auto intro: compressed_forest simp: compressed_def)
  from Suc.IH[OF this] obtain slot' row' where
    d: "display_loop slot1 sz (i + 1) (row @ [available_slot (slot ! r)]) = Some (Inr (slot', row'))"
    and c2: "compressed slot1 slot'" by blast
  have "display_loop slot sz i row = Some (Inr (slot', row'))"
    using i rs d by (subst display_loop.simps) simp
  with compressed_trans[OF c1 c2] show ?case by blast
qed

lemma display_all_sets_compressed:
  "forest slot \<Longrightarrow> length slot = sz \<Longrightarrow>
     \<exists>slot' row. display_all_sets slot sz = Some (Inr (slot', row)) \<and> compressed slot slot'"
  unfolding display_all_sets_def by (rule display_loop_compressed) simp_all

lemma init_loop_nth:
  "length slot = sz \<Longrightarrow> i \<le> sz \<Longrightarrow> n = sz - i \<Longrightarrow>
     \<exists>res. init_loop slot sz i = Inr res \<and> length res = sz \<and>
       (\<forall>k < sz. res ! k = (if k < i then slot ! k
                           else \<lparr>available_slot = k, parent = k, rank = 0\<rparr>))"
proof (induction n arbitrary: slot i)
  case 0
  then show ?case by (subst init_loop.simps) simp
next
  case (Suc n)
  then have i: "i < sz" by simp
  let ?slot1 = "slot[i := \<lparr>available_slot = i, parent = i, rank = 0\<rparr>]"
  have m: "make_set slot i = Inr ?slot1" using i Suc.prems by (simp add: make_set_def)
  have "length ?slot1 = sz" "i + 1 \<le> sz" "n = sz - (i + 1)" using Suc.prems by auto
  from Suc.IH[OF this] obtain res where
    r: "init_loop ?slot1 sz (i + 1) = Inr res" and len: "length res = sz"
    and nth: "\<forall>k < sz. res ! k = (if k < i + 1 then ?slot1 ! k
                           else \<lparr>available_slot = k, parent = k, rank = 0\<rparr>)" by blast
  have "init_loop slot sz i = Inr res" using i m r by (subst init_loop.simps) simp
  moreover have "\<forall>k < sz. res ! k = (if k < i then slot ! k
                           else \<lparr>available_slot = k, parent = k, rank = 0\<rparr>)"
    using nth Suc.prems(1) by (auto simp: nth_list_update less_Suc_eq)
  ultimately show ?case using len by blast
qed

lemma init_loop_initial_forest:
  assumes "length mem = sz"
  shows "init_loop mem sz 0 = Inr (initial_forest sz)"
proof -
  from init_loop_nth[OF assms, of 0 sz] obtain res where
    r: "init_loop mem sz 0 = Inr res" and len: "length res = sz"
    and nth: "\<forall>k < sz. res ! k = \<lparr>available_slot = k, parent = k, rank = 0\<rparr>" by auto
  have "res = initial_forest sz"
    using len nth by (intro nth_equalityI) (simp_all add: initial_forest_def)
  with r show ?thesis by simp
qed

lemma initial_forest_nth:
  "k < sz \<Longrightarrow> initial_forest sz ! k = \<lparr>available_slot = k, parent = k, rank = 0\<rparr>"
  by (simp add: initial_forest_def)

lemma initial_forest_root_of: "root_of (initial_forest sz) x r \<Longrightarrow> r = x \<and> x < sz"
  by (erule root_of.cases) (auto simp: initial_forest_def)

lemma sched_inv_initial: "sched_inv sz (initial_forest sz) {}"
  unfolding sched_inv_def
proof (intro conjI allI impI)
  show "length (initial_forest sz) = sz" by (simp add: initial_forest_def)
  show "forest (initial_forest sz)"
    unfolding forest_def by (auto simp: initial_forest_def intro!: exI root_of.at_root)
next
  fix x r assume "root_of (initial_forest sz) x r"
  then have "r = x" "x < sz" using initial_forest_root_of by auto
  then show "latest_free {} sz x (available_slot (initial_forest sz ! r))"
    by (simp add: initial_forest_nth latest_free_self)
next
  fix r1 r2
  assume "is_root (initial_forest sz) r1 \<and> is_root (initial_forest sz) r2 \<and>
       available_slot (initial_forest sz ! r1) = available_slot (initial_forest sz ! r2)"
  then show "r1 = r2" by (auto simp: is_root_def initial_forest_def)
qed

lemma another_free_slot:
  assumes "length out = i" "i + 1 < sz"
  shows "\<exists>z < sz. z \<notin> insert s (set out)"
proof (rule ccontr)
  assume "\<not> ?thesis"
  then have "{..<sz} \<subseteq> insert s (set out)" by auto
  then have "card {..<sz} \<le> card (insert s (set out))" by (intro card_mono) auto
  also have "\<dots> \<le> Suc (card (set out))" by (simp add: card_insert_if)
  also have "\<dots> \<le> Suc (length out)" using card_length by simp
  finally show False using assms by simp
qed

lemma sched_iteration:
  assumes i: "i < stop" "stop \<le> sz" "i < length ds" "ds ! i < sz"
    and inv: "sched_inv sz slot (set out)" and out: "length out = i"
  shows "\<exists>s slot3. sched_body diag sz ds i slot out = Some (out @ [s], Inr slot3) \<and>
           latest_free (set out) sz (ds ! i) s \<and> s < sz \<and> s \<notin> set out \<and>
           length slot3 = sz \<and> forest slot3 \<and>
           (i + 1 < sz \<longrightarrow> sched_inv sz slot3 (set (out @ [s])))"
proof -
  from sched_inv_lookup[OF inv i(4)] obtain s slot1 where
    rs: "representative_slot slot (ds ! i) = Some (Inr (s, slot1))"
    and lf: "latest_free (set out) sz (ds ! i) s" and c1: "compressed slot slot1" by blast
  have s: "s < sz" "s \<notin> set out" using latest_free_range[OF lf i(4)] by auto
  have inv1: "sched_inv sz slot1 (set out)" using inv c1 by (rule sched_inv_compressed)
  have last: "last_slot sz = sz - 1" using i by (simp add: last_slot_def)
  define u where "u = (if i \<noteq> last_slot sz
                       then unite slot1 s (if s = 0 then last_slot sz else s - 1)
                       else Some (Inr slot1))"
  have "\<exists>slot2. u = Some (Inr slot2) \<and> forest slot2 \<and> length slot2 = sz \<and>
          (i + 1 < sz \<longrightarrow> sched_inv sz slot2 (set (out @ [s])))"
  proof (cases "i = sz - 1")
    case True
    with i inv1 last show ?thesis by (auto simp: u_def sched_inv_def)
  next
    case False
    with i have "i + 1 < sz" by simp
    from another_free_slot[OF out this, of s] obtain z where
      z: "z < sz" "z \<notin> set out" "z \<noteq> s" by auto
    from sched_inv_unite[OF inv1 s(2,1) z(2,1,3)] obtain slot2 where
      "unite slot1 s (slot_before sz s) = Some (Inr slot2)"
      "sched_inv sz slot2 (insert s (set out))" by blast
    with False last show ?thesis by (auto simp: u_def slot_before_def sched_inv_def)
  qed
  then obtain slot2 where u2: "u = Some (Inr slot2)" and fo2: "forest slot2"
    and len2: "length slot2 = sz"
    and inv2: "i + 1 < sz \<longrightarrow> sched_inv sz slot2 (set (out @ [s]))" by blast
  define dd where "dd = (if diag i then display_all_sets slot2 sz else Some (Inr (slot2, [])))"
  have "\<exists>slot3 row. dd = Some (Inr (slot3, row)) \<and> compressed slot2 slot3"
    using display_all_sets_compressed[OF fo2 len2] by (auto simp: dd_def compressed_refl)
  then obtain slot3 row where d3: "dd = Some (Inr (slot3, row))"
    and c3: "compressed slot2 slot3" by blast
  have "sched_body diag sz ds i slot out = Some (out @ [s], Inr slot3)"
    using i rs u2[unfolded u_def] d3[unfolded dd_def]
    by (simp add: sched_body_def)
  moreover have "length slot3 = sz" using c3 len2 by (simp add: compressed_def)
  moreover have "forest slot3" using c3 fo2 by (rule compressed_forest)
  moreover have "i + 1 < sz \<longrightarrow> sched_inv sz slot3 (set (out @ [s]))"
    using inv2 c3 by (auto intro: sched_inv_compressed)
  ultimately show ?thesis using lf s by blast
qed

subsection \<open>The whole loop\<close>

lemma sched_loop_done:
  "sched_loop diag sz ds stop stop slot out = Some (out, Inr slot)"
  by (subst sched_loop.simps) simp

lemma sched_loop_run:
  assumes b: "stop \<le> sz" "stop \<le> length ds" "\<forall>k < stop. ds ! k < sz"
  shows "n = stop - i \<Longrightarrow> i \<le> stop \<Longrightarrow> sched_inv sz slot (set out) \<Longrightarrow> length out = i \<Longrightarrow>
         distinct out \<Longrightarrow> \<forall>s\<in>set out. s < sz \<Longrightarrow>
     \<exists>out' slot'. sched_loop diag sz ds stop i slot out = Some (out', Inr slot') \<and>
        length out' = stop \<and> distinct out' \<and> (\<forall>s\<in>set out'. s < sz) \<and> take i out' = out \<and>
        (\<forall>k. i \<le> k \<and> k < stop \<longrightarrow> latest_free (set (take k out')) sz (ds ! k) (out' ! k)) \<and>
        length slot' = sz \<and> forest slot' \<and> (stop < sz \<longrightarrow> sched_inv sz slot' (set out'))"
proof (induction n arbitrary: i slot out)
  case 0
  then have "i = stop" by simp
  moreover have "length slot = sz" "forest slot"
    using "0.prems"(3) by (simp_all add: sched_inv_def)
  ultimately show ?case using 0 by (auto simp: sched_loop_done)
next
  case (Suc n)
  then have i: "i < stop" by simp
  have "i < length ds" "ds ! i < sz" using i b by auto
  from sched_iteration[OF i b(1) this Suc.prems(3,4), of diag] obtain s slot3 where
    bd: "sched_body diag sz ds i slot out = Some (out @ [s], Inr slot3)"
    and lf: "latest_free (set out) sz (ds ! i) s" and s: "s < sz" "s \<notin> set out"
    and len3: "length slot3 = sz" and fo3: "forest slot3"
    and inv3: "i + 1 < sz \<longrightarrow> sched_inv sz slot3 (set (out @ [s]))" by blast
  have it: "sched_loop diag sz ds stop i slot out
           = sched_loop diag sz ds stop (i + 1) slot3 (out @ [s])"
    using i bd by (subst sched_loop.simps) simp
  have out1: "length (out @ [s]) = i + 1" "distinct (out @ [s])" "\<forall>t\<in>set (out @ [s]). t < sz"
    using Suc.prems s by auto
  show ?case
  proof (cases "i + 1 = stop")
    case True
    then have "sched_loop diag sz ds stop i slot out = Some (out @ [s], Inr slot3)"
      using it by (simp add: sched_loop_done)
    moreover have "\<forall>k. i \<le> k \<and> k < stop \<longrightarrow>
        latest_free (set (take k (out @ [s]))) sz (ds ! k) ((out @ [s]) ! k)"
    proof (intro allI impI)
      fix k assume "i \<le> k \<and> k < stop"
      with True have "k = i" by simp
      with lf Suc.prems(4)[symmetric] show
        "latest_free (set (take k (out @ [s]))) sz (ds ! k) ((out @ [s]) ! k)"
        by simp
    qed
    moreover have "stop < sz \<longrightarrow> sched_inv sz slot3 (set (out @ [s]))"
      using inv3 True by simp
    ultimately show ?thesis using out1 True len3 fo3 Suc.prems(4)
      by (intro exI[of _ "out @ [s]"] exI[of _ slot3]) simp
  next
    case False
    with i b(1) have lt: "i + 1 < sz" "i + 1 \<le> stop" by auto
    have "n = stop - (i + 1)" using Suc.prems(1) by simp
    from Suc.IH[OF this lt(2) inv3[rule_format, OF lt(1)] out1]
    obtain out' slot' where
      run: "sched_loop diag sz ds stop (i + 1) slot3 (out @ [s]) = Some (out', Inr slot')"
      and res: "length out' = stop" "distinct out'" "\<forall>s\<in>set out'. s < sz"
      and tk: "take (i + 1) out' = out @ [s]"
      and gr: "\<forall>k. i + 1 \<le> k \<and> k < stop \<longrightarrow>
                 latest_free (set (take k out')) sz (ds ! k) (out' ! k)"
      and fin: "length slot' = sz" "forest slot'"
        "stop < sz \<longrightarrow> sched_inv sz slot' (set out')"
      by (elim exE conjE)
    have tki: "take i out' = out"
    proof -
      have "take i out' = take i (take (i + 1) out')" by simp
      also have "\<dots> = out" using tk Suc.prems(4)[symmetric] by simp
      finally show ?thesis .
    qed
    have nthi: "out' ! i = s"
    proof -
      have "out' ! i = take (i + 1) out' ! i" by simp
      also have "\<dots> = s" using tk Suc.prems(4)[symmetric] by simp
      finally show ?thesis .
    qed
    have "\<forall>k. i \<le> k \<and> k < stop \<longrightarrow> latest_free (set (take k out')) sz (ds ! k) (out' ! k)"
    proof (intro allI impI)
      fix k assume k: "i \<le> k \<and> k < stop"
      show "latest_free (set (take k out')) sz (ds ! k) (out' ! k)"
      proof (cases "k = i")
        case True
        with lf tki nthi show ?thesis by simp
      next
        case False
        with k gr show ?thesis by simp
      qed
    qed
    with it run res tki fin show ?thesis by (intro exI[of _ out'] exI[of _ slot']) simp
  qed
qed

lemma sched_loop_from_start:
  assumes "stop \<le> sz" "stop \<le> length ds" "\<forall>k < stop. ds ! k < sz"
  shows "\<exists>out slot. sched_loop diag sz ds stop 0 (initial_forest sz) [] = Some (out, Inr slot) \<and>
        length out = stop \<and> distinct out \<and> (\<forall>s\<in>set out. s < sz) \<and>
        (\<forall>k < stop. latest_free (set (take k out)) sz (ds ! k) (out ! k)) \<and>
        length slot = sz \<and> forest slot \<and> (stop < sz \<longrightarrow> sched_inv sz slot (set out))"
  using sched_loop_run[OF assms, of stop 0 "initial_forest sz" "[]" diag] sched_inv_initial[of sz]
  by simp

lemma sched_loop_split:
  "n = mid - i \<Longrightarrow> i \<le> mid \<Longrightarrow> mid \<le> stop \<Longrightarrow>
   sched_loop diag sz ds mid i slot out = Some (out', Inr slot') \<Longrightarrow>
   sched_loop diag sz ds stop i slot out = sched_loop diag sz ds stop mid slot' out'"
proof (induction n arbitrary: i slot out)
  case 0
  then have "i = mid" by simp
  with 0 show ?case by (simp add: sched_loop_done)
next
  case (Suc n)
  then have i: "i < mid" "i < stop" by auto
  from Suc.prems(4) i obtain out1 slot1 where
    bd: "sched_body diag sz ds i slot out = Some (out1, Inr slot1)"
    and rest: "sched_loop diag sz ds mid (i + 1) slot1 out1 = Some (out', Inr slot')"
    by (subst (asm) sched_loop.simps) (simp split: option.splits sum.splits prod.splits)
  have "sched_loop diag sz ds stop (i + 1) slot1 out1 = sched_loop diag sz ds stop mid slot' out'"
    using Suc.prems i rest by (intro Suc.IH) auto
  then show ?case using bd i by (subst sched_loop.simps) simp
qed

subsection \<open>Deciding roots on concrete arrays\<close>

lemma root_within_sound: "root_within n slot i = Some r \<Longrightarrow> root_of slot i r"
proof (induction n arbitrary: i)
  case 0
  then show ?case by simp
next
  case (Suc n)
  show ?case
  proof (cases "parent (slot ! i) = i")
    case True
    with Suc.prems show ?thesis by (auto split: if_splits intro: root_of.at_root)
  next
    case False
    with Suc.prems have "i < length slot" "root_within n slot (parent (slot ! i)) = Some r"
      by (auto split: if_splits)
    with False Suc.IH show ?thesis by (auto intro: root_of.above)
  qed
qed

lemma forest_by_root_within:
  assumes "list_all (\<lambda>i. root_within (length slot) slot i \<noteq> None) [0..<length slot]"
  shows "forest slot"
  unfolding forest_def
proof (intro allI impI)
  fix i assume "i < length slot"
  with assms have "root_within (length slot) slot i \<noteq> None" by (simp add: list_all_iff)
  then show "\<exists>r. root_of slot i r" using root_within_sound by blast
qed

lemma root_of_same_parents:
  assumes "length slot' = length slot"
    and "\<forall>x<length slot. parent (slot' ! x) = parent (slot ! x)"
  shows "root_of slot x q \<Longrightarrow> root_of slot' x q"
  by (induction rule: root_of.induct) (use assms in \<open>auto intro: root_of.intros\<close>)

section \<open>Claims about the forest operations\<close>

text \<open>
  Claim C3. For \<^verbatim>\<open>merge(slot, a, b)\<close> on two distinct roots: if \<open>rank a > rank b\<close> then
  \<open>b\<close>'s parent becomes \<open>a\<close> and \<open>a\<close>'s \<open>available_slot\<close> is overwritten with \<open>b\<close>'s;
  otherwise \<open>a\<close>'s parent becomes \<open>b\<close>, and \<open>b\<close>'s rank is incremented (in 32-bit
  arithmetic) exactly when the ranks were equal. In both cases the surviving root is a
  root afterwards and its \<open>available_slot\<close> is the one \<open>b\<close> held before the call.
\<close>

theorem merge_keeps_second_available_slot:
  assumes "is_root slot a" "is_root slot b" "a \<noteq> b"
  shows "\<exists>slot'. merge slot a b = Inr slot' \<and>
     (if rank (slot ! b) < rank (slot ! a)
      then parent (slot' ! b) = a \<and> is_root slot' a \<and>
           available_slot (slot' ! a) = available_slot (slot ! b) \<and>
           rank (slot' ! a) = rank (slot ! a) \<and> rank (slot' ! b) = rank (slot ! b)
      else parent (slot' ! a) = b \<and> is_root slot' b \<and>
           available_slot (slot' ! b) = available_slot (slot ! b) \<and>
           rank (slot' ! a) = rank (slot ! a) \<and>
           rank (slot' ! b) = (if rank (slot ! a) = rank (slot ! b) then rank (slot ! b) + 1
                               else rank (slot ! b)))"
  using assms by (auto simp: merge_def is_root_def Let_def)

theorem merge_keeps_second_available_slot_witness:
  "\<exists>slot'. merge [\<lparr>available_slot = 0, parent = 0, rank = 1\<rparr>,
                    \<lparr>available_slot = 1, parent = 0, rank = 0\<rparr>,
                    \<lparr>available_slot = 2, parent = 2, rank = 0\<rparr>] 0 2 = Inr slot' \<and>
      parent (slot' ! 2) = 0 \<and> is_root slot' 0 \<and> available_slot (slot' ! 0) = 2 \<and>
      rank (slot' ! 0) = 1 \<and> rank (slot' ! 2) = 0"
  using merge_keeps_second_available_slot
    [of "[\<lparr>available_slot = 0, parent = 0, rank = 1\<rparr>,
          \<lparr>available_slot = 1, parent = 0, rank = 0\<rparr>,
          \<lparr>available_slot = 2, parent = 2, rank = 0\<rparr>]" 0 2]
  by (simp add: is_root_def)

text \<open>
  Claim C5. In a forest, for an in-range slot \<open>s\<close>, \<^verbatim>\<open>find_set\<close> returns the root of
  \<open>s\<close>'s tree, and afterwards every node on the path from \<open>s\<close> to the root, the root
  excluded, has the root as its parent and the root's \<open>available_slot\<close>.
\<close>

theorem find_set_returns_root_and_compresses:
  assumes "forest slot" "s < length slot"
  shows "\<exists>r slot'. find_set slot s = Some (Inr (r, slot')) \<and> root_of slot s r \<and>
           is_root slot' r \<and>
           (\<forall>x. on_path slot s x \<and> x \<noteq> r \<longrightarrow>
              parent (slot' ! x) = r \<and>
              available_slot (slot' ! x) = available_slot (slot' ! r))"
proof -
  from assms obtain r where r: "root_of slot s r" by (auto simp: forest_def)
  from find_set_root_of[OF r] obtain slot' where
    f: "find_set slot s = Some (Inr (r, slot'))" and c: "compressed slot slot'"
    and p: "\<forall>x. on_path slot s x \<and> x \<noteq> r \<longrightarrow>
          slot' ! x = (slot ! x)\<lparr>parent := r, available_slot := available_slot (slot ! r)\<rparr>"
    by blast
  have rr: "is_root slot r" using r by (rule root_of_is_root)
  have same: "slot' ! r = slot ! r" using c rr by (rule compressed_root_same)
  have "is_root slot' r" using c rr by (rule compressed_is_root)
  moreover have "\<forall>x. on_path slot s x \<and> x \<noteq> r \<longrightarrow>
              parent (slot' ! x) = r \<and>
              available_slot (slot' ! x) = available_slot (slot' ! r)"
    using p same by simp
  ultimately show ?thesis using f r by blast
qed

text \<open>A three-slot chain \<open>2 \<rightarrow> 1 \<rightarrow> 0\<close>, used as a concrete forest.\<close>

lemma chain_forest:
  "forest [\<lparr>available_slot = 0, parent = 0, rank = 2\<rparr>,
           \<lparr>available_slot = 1, parent = 0, rank = 1\<rparr>,
           \<lparr>available_slot = 2, parent = 1, rank = 0\<rparr>]"
  by (rule forest_by_root_within) simp

theorem find_set_returns_root_and_compresses_witness:
  "\<exists>r slot'. find_set [\<lparr>available_slot = 0, parent = 0, rank = 2\<rparr>,
                        \<lparr>available_slot = 1, parent = 0, rank = 1\<rparr>,
                        \<lparr>available_slot = 2, parent = 1, rank = 0\<rparr>] 2 = Some (Inr (r, slot')) \<and>
     root_of [\<lparr>available_slot = 0, parent = 0, rank = 2\<rparr>,
              \<lparr>available_slot = 1, parent = 0, rank = 1\<rparr>,
              \<lparr>available_slot = 2, parent = 1, rank = 0\<rparr>] 2 r \<and>
     is_root slot' r \<and>
     (\<forall>x. on_path [\<lparr>available_slot = 0, parent = 0, rank = 2\<rparr>,
                    \<lparr>available_slot = 1, parent = 0, rank = 1\<rparr>,
                    \<lparr>available_slot = 2, parent = 1, rank = 0\<rparr>] 2 x \<and> x \<noteq> r \<longrightarrow>
          parent (slot' ! x) = r \<and> available_slot (slot' ! x) = available_slot (slot' ! r))"
  using find_set_returns_root_and_compresses[OF chain_forest, of 2] by simp

text \<open>
  Claim C9. In a forest, two calls of \<^verbatim>\<open>find_set\<close> on the same in-range slot in a row
  return the same representative, and the second call returns the array it was given:
  no parent, \<open>available_slot\<close> or rank field changes.
\<close>

theorem find_set_twice:
  assumes "forest slot" "s < length slot"
  shows "\<exists>r slot'. find_set slot s = Some (Inr (r, slot')) \<and>
           find_set slot' s = Some (Inr (r, slot'))"
proof -
  from assms obtain r where r: "root_of slot s r" by (auto simp: forest_def)
  from find_set_root_of[OF r] obtain slot' where
    f: "find_set slot s = Some (Inr (r, slot'))" and c: "compressed slot slot'"
    and p: "\<forall>x. on_path slot s x \<and> x \<noteq> r \<longrightarrow>
          slot' ! x = (slot ! x)\<lparr>parent := r, available_slot := available_slot (slot ! r)\<rparr>"
    by blast
  have rr: "is_root slot r" using r by (rule root_of_is_root)
  have same: "slot' ! r = slot ! r" using c rr by (rule compressed_root_same)
  have rr': "is_root slot' r" using c rr by (rule compressed_is_root)
  have len: "length slot' = length slot" using c by (simp add: compressed_def)
  have "find_set slot' s = Some (Inr (r, slot'))"
  proof (cases "s = r")
    case True
    with rr' show ?thesis by (simp add: find_set_at_root)
  next
    case False
    have "on_path slot s s" using assms(2) by (rule on_path.start)
    with p False have s': "slot' ! s = (slot ! s)\<lparr>parent := r, available_slot := available_slot (slot ! r)\<rparr>"
      by blast
    then have ps: "parent (slot' ! s) = r" by simp
    have "find_set slot' (parent (slot' ! s)) = Some (Inr (r, slot'))"
      using ps rr' by (simp add: find_set_at_root)
    from find_set_above[OF _ _ this refl] assms(2) len ps False rr'
    have "find_set slot' s = Some (Inr (r, slot'[s := (slot' ! s)
             \<lparr>parent := r, available_slot := available_slot (slot' ! r)\<rparr>]))"
      by (simp add: is_root_def)
    moreover have "(slot' ! s)\<lparr>parent := r, available_slot := available_slot (slot' ! r)\<rparr> = slot' ! s"
      using s' same by simp
    ultimately show ?thesis by simp
  qed
  with f show ?thesis by blast
qed

theorem find_set_twice_witness:
  "\<exists>r slot'. find_set [\<lparr>available_slot = 0, parent = 0, rank = 2\<rparr>,
                        \<lparr>available_slot = 1, parent = 0, rank = 1\<rparr>,
                        \<lparr>available_slot = 2, parent = 1, rank = 0\<rparr>] 2 = Some (Inr (r, slot')) \<and>
     find_set slot' 2 = Some (Inr (r, slot'))"
  using find_set_twice[OF chain_forest, of 2] by simp

text \<open>
  Claim C10. When \<open>a\<close> and \<open>b\<close> already have the same root \<open>r\<close>, \<^verbatim>\<open>unite\<close> leaves every
  slot with the root it had (the partition is unchanged) and every root with the
  \<open>available_slot\<close> it had, and increments the rank of \<open>r\<close> by one (in 32-bit
  arithmetic): \<^verbatim>\<open>merge\<close> is called with both arguments \<open>r\<close> and takes its else branch.
\<close>

theorem unite_same_set:
  assumes "forest slot" "root_of slot a r" "root_of slot b r"
  shows "\<exists>slot'. unite slot a b = Some (Inr slot') \<and>
           (\<forall>x q. root_of slot' x q \<longleftrightarrow> root_of slot x q) \<and>
           (\<forall>q. is_root slot q \<longrightarrow> available_slot (slot' ! q) = available_slot (slot ! q)) \<and>
           rank (slot' ! r) = rank (slot ! r) + 1"
proof -
  from unite_same[OF assms(2,3)] obtain slot1 where
    u: "unite slot a b = Some (Inr (slot1[r := (slot1 ! r)\<lparr>rank := rank (slot ! r) + 1\<rparr>]))"
    and c: "compressed slot slot1" by blast
  let ?slot' = "slot1[r := (slot1 ! r)\<lparr>rank := rank (slot ! r) + 1\<rparr>]"
  have len: "length slot1 = length slot" using c by (simp add: compressed_def)
  have rr: "is_root slot r" using assms(2) by (rule root_of_is_root)
  then have r: "r < length slot1" using len by (simp add: is_root_def)
  have par: "\<forall>x<length slot1. parent (?slot' ! x) = parent (slot1 ! x)"
    using r by (auto simp: nth_list_update)
  have par': "\<forall>x<length ?slot'. parent (slot1 ! x) = parent (?slot' ! x)"
    using r by (auto simp: nth_list_update)
  have "root_of ?slot' x q \<longleftrightarrow> root_of slot x q" for x q
  proof -
    have "root_of ?slot' x q \<longleftrightarrow> root_of slot1 x q"
      using root_of_same_parents[OF _ par, of x q] root_of_same_parents[OF _ par', of x q]
      by auto
    with c show ?thesis by (simp add: compressed_root_of_iff)
  qed
  moreover have "available_slot (?slot' ! q) = available_slot (slot ! q)" if "is_root slot q" for q
  proof -
    have "available_slot (?slot' ! q) = available_slot (slot1 ! q)"
      using r by (cases "q = r") simp_all
    with compressed_root_same[OF c that] show ?thesis by simp
  qed
  moreover have "rank (?slot' ! r) = rank (slot ! r) + 1" using r by simp
  ultimately show ?thesis using u by (intro exI[of _ ?slot']) simp
qed

lemma chain_root_of_2:
  "root_of [\<lparr>available_slot = 0, parent = 0, rank = 2\<rparr>,
           \<lparr>available_slot = 1, parent = 0, rank = 1\<rparr>,
           \<lparr>available_slot = 2, parent = 1, rank = 0\<rparr>] 2 0"
  by (rule root_within_sound[of "Suc (Suc (Suc 0))"]) simp

lemma chain_root_of_1:
  "root_of [\<lparr>available_slot = 0, parent = 0, rank = 2\<rparr>,
           \<lparr>available_slot = 1, parent = 0, rank = 1\<rparr>,
           \<lparr>available_slot = 2, parent = 1, rank = 0\<rparr>] (Suc 0) 0"
  by (rule root_within_sound[of "Suc (Suc (Suc 0))"]) simp

theorem unite_same_set_witness:
  "\<exists>slot'. unite [\<lparr>available_slot = 0, parent = 0, rank = 2\<rparr>,
                   \<lparr>available_slot = 1, parent = 0, rank = 1\<rparr>,
                   \<lparr>available_slot = 2, parent = 1, rank = 0\<rparr>] 2 (Suc 0) = Some (Inr slot') \<and>
     (\<forall>x q. root_of slot' x q \<longleftrightarrow>
            root_of [\<lparr>available_slot = 0, parent = 0, rank = 2\<rparr>,
                     \<lparr>available_slot = 1, parent = 0, rank = 1\<rparr>,
                     \<lparr>available_slot = 2, parent = 1, rank = 0\<rparr>] x q) \<and>
     (\<forall>q. is_root [\<lparr>available_slot = 0, parent = 0, rank = 2\<rparr>,
                   \<lparr>available_slot = 1, parent = 0, rank = 1\<rparr>,
                   \<lparr>available_slot = 2, parent = 1, rank = 0\<rparr>] q \<longrightarrow>
          available_slot (slot' ! q) =
          available_slot ([\<lparr>available_slot = 0, parent = 0, rank = 2\<rparr>,
                   \<lparr>available_slot = 1, parent = 0, rank = 1\<rparr>,
                   \<lparr>available_slot = 2, parent = 1, rank = 0\<rparr>] ! q)) \<and>
     rank (slot' ! 0) = 3"
  using unite_same_set[OF chain_forest chain_root_of_2 chain_root_of_1] by simp

section \<open>Claims about the scheduling run\<close>

lemma run_until_initial:
  "length mem = sz \<Longrightarrow>
     run_until diag sz ds mem stop = sched_loop diag sz ds stop 0 (initial_forest sz) []"
  by (simp add: run_until_def init_loop_initial_forest)

lemma run_until_in_range:
  assumes "length ds = sz" "\<forall>d\<in>set ds. d < sz" "length mem = sz" "stop \<le> sz"
  shows "\<exists>out slot. run_until diag sz ds mem stop = Some (out, Inr slot) \<and>
        length out = stop \<and> distinct out \<and> (\<forall>s\<in>set out. s < sz) \<and>
        (\<forall>k < stop. latest_free (set (take k out)) sz (ds ! k) (out ! k)) \<and>
        length slot = sz \<and> forest slot \<and> (stop < sz \<longrightarrow> sched_inv sz slot (set out))"
proof -
  have "stop \<le> length ds" "\<forall>k < stop. ds ! k < sz" using assms by auto
  from sched_loop_from_start[OF assms(4) this, of diag] run_until_initial[OF assms(3)]
  show ?thesis by simp
qed

lemma distinct_covers:
  assumes "length out = sz" "distinct out" "\<forall>s\<in>set out. s < sz"
  shows "set out = {..<sz}"
proof (rule card_subset_eq)
  show "finite {..<sz}" by simp
  show "set out \<subseteq> {..<sz}" using assms(3) by auto
  show "card (set out) = card {..<sz}" using assms(1,2) by (simp add: distinct_card)
qed

text \<open>
  Claim C1. For \<open>sz \<ge> 1\<close> and \<open>sz\<close> deadlines in \<open>[0, sz)\<close>, the whole run (whichever
  iterations print the diagnostic table) returns without fault and emits exactly \<open>sz\<close> assignments, each a
  slot in \<open>[0, sz)\<close>, no slot twice: task \<open>t\<close> \<open>\<mapsto>\<close> slot \<open>out ! t\<close> is a bijection on
  \<open>{0, \<dots>, sz - 1}\<close>.
\<close>

theorem scheduler_bijection:
  assumes "1 \<le> sz" "length ds = sz" "\<forall>d\<in>set ds. d < sz" "length mem = sz"
  shows "\<exists>out slot. scheduler diag sz ds mem = Some (out, Inr slot) \<and>
           length out = sz \<and> (\<forall>s\<in>set out. s < sz) \<and> distinct out \<and>
           bij_betw (\<lambda>t. out ! t) {..<sz} {..<sz}"
proof -
  from run_until_in_range[OF assms(2,3,4) order_refl, of diag] obtain out slot where
    run: "run_until diag sz ds mem sz = Some (out, Inr slot)"
    and len: "length out = sz" and d: "distinct out" and r: "\<forall>s\<in>set out. s < sz"
    by blast
  have "set out = {..<sz}" using len d r by (rule distinct_covers)
  with d len have "bij_betw (\<lambda>t. out ! t) {..<sz} {..<sz}"
    by (intro bij_betw_nth) simp_all
  with run len d r show ?thesis by (auto simp: scheduler_def)
qed

theorem scheduler_bijection_witness:
  "\<exists>out slot. scheduler (\<lambda>i. True) 3 [2, 2, 0]
       (replicate 3 \<lparr>available_slot = 7, parent = 9, rank = 4\<rparr>) = Some (out, Inr slot) \<and>
     length out = 3 \<and> (\<forall>s\<in>set out. s < 3) \<and> distinct out \<and>
     bij_betw (\<lambda>t. out ! t) {..<3} {..<3}"
  using scheduler_bijection[of 3 "[2, 2, 0]"
          "replicate 3 \<lparr>available_slot = 7, parent = 9, rank = 4\<rparr>" "\<lambda>i. True"]
  by simp

text \<open>
  Claim C2. In a run with in-range deadlines, the slot assigned to task \<open>t\<close> with deadline
  \<open>d\<close> is the latest slot among \<open>0..d\<close> that no earlier task was assigned; if every slot of
  \<open>0..d\<close> is taken, it is the latest slot of all that no earlier task was assigned.
\<close>

theorem scheduler_assigns_latest_free:
  assumes "length ds = sz" "\<forall>d\<in>set ds. d < sz" "length mem = sz"
  shows "\<exists>out slot. scheduler diag sz ds mem = Some (out, Inr slot) \<and> length out = sz \<and>
           (\<forall>t < sz. latest_free (set (take t out)) sz (ds ! t) (out ! t))"
  using run_until_in_range[OF assms order_refl, of diag] by (auto simp: scheduler_def)

theorem scheduler_assigns_latest_free_witness:
  "\<exists>out slot. scheduler (\<lambda>i. True) 3 [2, 2, 0]
       (replicate 3 \<lparr>available_slot = 7, parent = 9, rank = 4\<rparr>) = Some (out, Inr slot) \<and>
     length out = 3 \<and>
     (\<forall>t < 3. latest_free (set (take t out)) 3 ([2, 2, 0] ! t) (out ! t))"
  using scheduler_assigns_latest_free[of "[2, 2, 0]" 3
          "replicate 3 \<lparr>available_slot = 7, parent = 9, rank = 4\<rparr>" "\<lambda>i. True"]
  by simp

text \<open>
  Claim C4. In a run with in-range deadlines, in the state in which the loop reaches task
  \<open>t\<close> (\<open>out\<close> holds the slots of the tasks before it, and the run continues from that
  state), \<^verbatim>\<open>slot[find_set(slot, s)].available_slot\<close> is, for every slot \<open>s\<close>, a slot index
  below \<open>sz\<close> that none of the earlier tasks was assigned.
\<close>

theorem representative_slot_is_free:
  assumes "length ds = sz" "\<forall>d\<in>set ds. d < sz" "length mem = sz" "t < sz"
  shows "\<exists>out slot. run_until diag sz ds mem t = Some (out, Inr slot) \<and> length out = t \<and>
           scheduler diag sz ds mem = sched_loop diag sz ds sz t slot out \<and>
           (\<forall>s < sz. \<exists>v slot'. representative_slot slot s = Some (Inr (v, slot')) \<and>
                        v < sz \<and> v \<notin> set out)"
proof -
  from run_until_in_range[OF assms(1,2,3), of t diag] assms(4) obtain out slot where
    run: "run_until diag sz ds mem t = Some (out, Inr slot)"
    and len: "length out = t" and inv: "sched_inv sz slot (set out)"
    by auto
  have "sched_loop diag sz ds t 0 (initial_forest sz) [] = Some (out, Inr slot)"
    using run run_until_initial[OF assms(3)] by simp
  from sched_loop_split[OF _ _ _ this, of t sz] assms(4)
  have cont: "scheduler diag sz ds mem = sched_loop diag sz ds sz t slot out"
    by (simp add: scheduler_def run_until_initial[OF assms(3)])
  have "\<exists>v slot'. representative_slot slot s = Some (Inr (v, slot')) \<and> v < sz \<and> v \<notin> set out"
    if "s < sz" for s
  proof -
    from sched_inv_lookup[OF inv that] obtain v slot' where
      "representative_slot slot s = Some (Inr (v, slot'))" "latest_free (set out) sz s v"
      by blast
    with latest_free_range[OF _ that] show ?thesis by blast
  qed
  with run len cont show ?thesis by blast
qed

theorem representative_slot_is_free_witness:
  "\<exists>out slot. run_until (\<lambda>i. True) 3 [2, 2, 0]
       (replicate 3 \<lparr>available_slot = 7, parent = 9, rank = 4\<rparr>) 2 = Some (out, Inr slot) \<and>
     length out = 2 \<and>
     scheduler (\<lambda>i. True) 3 [2, 2, 0] (replicate 3 \<lparr>available_slot = 7, parent = 9, rank = 4\<rparr>)
       = sched_loop (\<lambda>i. True) 3 [2, 2, 0] 3 2 slot out \<and>
     (\<forall>s < 3. \<exists>v slot'. representative_slot slot s = Some (Inr (v, slot')) \<and>
                  v < 3 \<and> v \<notin> set out)"
  using representative_slot_is_free[of "[2, 2, 0]" 3
          "replicate 3 \<lparr>available_slot = 7, parent = 9, rank = 4\<rparr>" 2 "\<lambda>i. True"]
  by simp

lemma default_run:
  "map_option fst
     (sched_loop (\<lambda>i. True) 10 [0, 6, 1, 9, 2, 5, 3, 3, 6, 0] 10 0 (initial_forest 10) [])
   = Some [0, 6, 1, 9, 2, 5, 3, 8, 4, 7]"
  by code_simp

text \<open>
  Claim C6. The run of \<^verbatim>\<open>main\<close> (diagnostic table included) with \<open>size = 10\<close> on the
  default deadlines \<open>[0,6,1,9,2,5,3,3,6,0]\<close> assigns, zero-based, the slots
  \<open>0, 6, 1, 9, 2, 5, 3, 8, 4, 7\<close> to tasks 1 to 10, whatever the array held before
  initialisation: task 1 gets slot 0, task 2 slot 6, task 3 slot 1.
\<close>

theorem default_schedule:
  assumes "length mem = 10"
  shows "map_option fst (scheduler (\<lambda>i. True) 10 [0, 6, 1, 9, 2, 5, 3, 3, 6, 0] mem)
           = Some [0, 6, 1, 9, 2, 5, 3, 8, 4, 7]"
  using default_run by (simp add: scheduler_def run_until_initial[OF assms])

theorem default_schedule_witness:
  "map_option fst (scheduler (\<lambda>i. True) 10 [0, 6, 1, 9, 2, 5, 3, 3, 6, 0]
       (replicate 10 \<lparr>available_slot = 7, parent = 9, rank = 4\<rparr>))
     = Some [0, 6, 1, 9, 2, 5, 3, 8, 4, 7]"
  using default_schedule[of "replicate 10 \<lparr>available_slot = 7, parent = 9, rank = 4\<rparr>"]
  by simp




lemma greedy_run_unique:
  assumes len: "length o1 = n" "length o2 = n" and pre: "take k o1 = take k o2"
    and g1: "\<forall>j. k \<le> j \<and> j < n \<longrightarrow> latest_free (set (take j o1)) sz (ds ! j) (o1 ! j)"
    and g2: "\<forall>j. k \<le> j \<and> j < n \<longrightarrow> latest_free (set (take j o2)) sz (ds ! j) (o2 ! j)"
  shows "o1 = o2"
proof -
  have "j \<le> n \<Longrightarrow> take j o1 = take j o2" for j
  proof (induction j)
    case 0
    show ?case by simp
  next
    case (Suc j)
    then have j: "j < n" and ih: "take j o1 = take j o2" by auto
    have nth: "o1 ! j = o2 ! j"
    proof (cases "j < k")
      case True
      have "o1 ! j = take k o1 ! j" using True by simp
      also have "\<dots> = take k o2 ! j" using pre by simp
      also have "\<dots> = o2 ! j" using True by simp
      finally show ?thesis .
    next
      case False
      with j g1 g2 have "latest_free (set (take j o1)) sz (ds ! j) (o1 ! j)"
        "latest_free (set (take j o2)) sz (ds ! j) (o2 ! j)" by auto
      with ih show ?thesis by (auto intro: latest_free_unique)
    qed
    with ih j len show ?case by (simp add: take_Suc_conv_app_nth)
  qed
  from this[of n] len show ?thesis by simp
qed

subsection \<open>The states in which \<^verbatim>\<open>main\<close> prints the table\<close>

lemma sched_body_diag_cong:
  assumes "diag i = diag' i"
  shows "sched_body diag sz ds i slot out = sched_body diag' sz ds i slot out"
  unfolding sched_body_def assms ..

lemma sched_loop_diag_cong:
  "n = stop - i \<Longrightarrow> \<forall>j. i \<le> j \<and> j < stop \<longrightarrow> diag j = diag' j \<Longrightarrow>
   sched_loop diag sz ds stop i slot out = sched_loop diag' sz ds stop i slot out"
proof (induction n arbitrary: i slot out)
  case 0
  then have "\<not> i < stop" by simp
  then show ?case by (subst sched_loop.simps, subst (2) sched_loop.simps) simp
next
  case (Suc n)
  then have i: "i < stop" by simp
  have body: "sched_body diag sz ds i slot out = sched_body diag' sz ds i slot out"
    using Suc.prems(2) i by (intro sched_body_diag_cong) simp
  have rest: "sched_loop diag sz ds stop (Suc i) slot1 out1
                = sched_loop diag' sz ds stop (Suc i) slot1 out1" for slot1 out1
    using Suc.prems by (intro Suc.IH) auto
  show ?case
    by (subst sched_loop.simps, subst (2) sched_loop.simps)
       (simp add: body rest split: option.splits sum.splits prod.splits)
qed

lemma sched_loop_last:
  "n = k - i \<Longrightarrow> i \<le> k \<Longrightarrow>
   sched_loop diag sz ds (Suc k) i slot out = Some (out', Inr slot') \<Longrightarrow>
   \<exists>out0 slot0. sched_loop diag sz ds k i slot out = Some (out0, Inr slot0) \<and>
      sched_body diag sz ds k slot0 out0 = Some (out', Inr slot')"
proof (induction n arbitrary: i slot out)
  case 0
  then have ik: "i = k" by simp
  from "0.prems"(3) ik obtain out1 slot1 where
    bd: "sched_body diag sz ds k slot out = Some (out1, Inr slot1)"
    and rest: "sched_loop diag sz ds (Suc k) (k + 1) slot1 out1 = Some (out', Inr slot')"
    by (subst (asm) sched_loop.simps) (simp split: option.splits sum.splits prod.splits)
  from rest have "out1 = out'" "slot1 = slot'" by (simp_all add: sched_loop_done)
  with bd ik show ?case by (simp add: sched_loop_done)
next
  case (Suc n)
  then have i: "i < k" by simp
  from Suc.prems(3) i obtain out1 slot1 where
    bd: "sched_body diag sz ds i slot out = Some (out1, Inr slot1)"
    and rest: "sched_loop diag sz ds (Suc k) (i + 1) slot1 out1 = Some (out', Inr slot')"
    by (subst (asm) sched_loop.simps) (simp split: option.splits sum.splits prod.splits)
  have "n = k - (i + 1)" "i + 1 \<le> k" using Suc.prems i by auto
  from Suc.IH[OF this rest] obtain out0 slot0 where
    "sched_loop diag sz ds k (i + 1) slot1 out1 = Some (out0, Inr slot0)"
    "sched_body diag sz ds k slot0 out0 = Some (out', Inr slot')" by blast
  moreover have "sched_loop diag sz ds k i slot out = sched_loop diag sz ds k (i + 1) slot1 out1"
    using bd i by (subst sched_loop.simps) simp
  ultimately show ?case by simp
qed

lemma sched_body_table:
  assumes "\<not> diag i" "diag' i"
    and "sched_body diag sz ds i slot0 out0 = Some (out, Inr slot)"
    and "display_all_sets slot sz = Some (Inr (slot', row))"
  shows "sched_body diag' sz ds i slot0 out0 = Some (out, Inr slot')"
  using assms unfolding sched_body_def
  by (auto split: if_splits option.splits sum.splits prod.splits)

text \<open>
  In iteration \<open>k\<close>, \<^verbatim>\<open>main\<close> calls \<^verbatim>\<open>display_all_sets\<close> in the state that the run with the
  tables of the iterations before \<open>k\<close> only has when it reaches iteration \<open>k + 1\<close>, and goes
  on from the array the call returns.
\<close>

lemma main_table_state:
  assumes mem: "length mem = sz" and k: "k < sz"
    and pre: "run_until (\<lambda>i. i < k) sz ds mem (k + 1) = Some (out, Inr slot)"
    and disp: "display_all_sets slot sz = Some (Inr (slot', row))"
  shows "scheduler (\<lambda>i. True) sz ds mem = sched_loop (\<lambda>i. True) sz ds sz (k + 1) slot' out"
proof -
  let ?D = "\<lambda>i. i < k" and ?T = "\<lambda>i::nat. True"
  have "sched_loop ?D sz ds (Suc k) 0 (initial_forest sz) [] = Some (out, Inr slot)"
    using pre by (simp add: run_until_initial[OF mem])
  from sched_loop_last[OF _ _ this, of k] obtain out0 slot0 where
    head: "sched_loop ?D sz ds k 0 (initial_forest sz) [] = Some (out0, Inr slot0)"
    and bd: "sched_body ?D sz ds k slot0 out0 = Some (out, Inr slot)" by auto
  have "sched_loop ?T sz ds k 0 (initial_forest sz) [] = Some (out0, Inr slot0)"
    using head sched_loop_diag_cong[of k k 0 ?D ?T sz ds "initial_forest sz" "[]"] by simp
  from sched_loop_split[OF _ _ _ this, of k sz] k
  have 1: "sched_loop ?T sz ds sz 0 (initial_forest sz) [] = sched_loop ?T sz ds sz k slot0 out0"
    by simp
  have "sched_body ?T sz ds k slot0 out0 = Some (out, Inr slot')"
    using sched_body_table[OF _ _ bd disp, of ?T] by simp
  then have "sched_loop ?T sz ds sz k slot0 out0 = sched_loop ?T sz ds sz (k + 1) slot' out"
    using k by (subst sched_loop.simps) simp
  with 1 show ?thesis by (simp add: scheduler_def run_until_initial[OF mem])
qed

text \<open>
  Claim C8, as stated: the diagnostic query changes no \<open>available_slot\<close> value stored in
  the forest. It does: \<^verbatim>\<open>find_set\<close> overwrites the \<open>available_slot\<close> of every non-root it
  compresses. With \<open>size = 3\<close>, after task 1 (deadline 1) is scheduled and its slot united
  with slot 0, slot 1 still stores \<open>available_slot = 1\<close>; \<^verbatim>\<open>display_all_sets\<close> changes it
  to 0.
\<close>

theorem display_changes_stored_available_slot:
  "run_until (\<lambda>i. False) 3 [1, 0, 0] [\<lparr>available_slot = 7, parent = 9, rank = 4\<rparr>,
                                \<lparr>available_slot = 7, parent = 9, rank = 4\<rparr>,
                                \<lparr>available_slot = 7, parent = 9, rank = 4\<rparr>] 1
     = Some ([1], Inr [\<lparr>available_slot = 0, parent = 0, rank = 1\<rparr>,
                       \<lparr>available_slot = 1, parent = 0, rank = 0\<rparr>,
                       \<lparr>available_slot = 2, parent = 2, rank = 0\<rparr>]) \<and>
   display_all_sets [\<lparr>available_slot = 0, parent = 0, rank = 1\<rparr>,
                     \<lparr>available_slot = 1, parent = 0, rank = 0\<rparr>,
                     \<lparr>available_slot = 2, parent = 2, rank = 0\<rparr>] 3
     = Some (Inr ([\<lparr>available_slot = 0, parent = 0, rank = 1\<rparr>,
                   \<lparr>available_slot = 0, parent = 0, rank = 0\<rparr>,
                   \<lparr>available_slot = 2, parent = 2, rank = 0\<rparr>], [0, 0, 2]))"
  by code_simp

text \<open>
  Claim C8, amended. Take any state of a run with in-range deadlines between two
  iterations or after the last, whichever of the earlier iterations printed the table;
  by \<open>main_table_state\<close> these include every state in which \<^verbatim>\<open>main\<close> itself calls
  \<^verbatim>\<open>display_all_sets\<close>. The call there only compresses paths: every root keeps its record
  (so the \<open>available_slot\<close> read through \<^verbatim>\<open>find_set\<close> is the same for every slot), a
  non-root may get its root as parent and its root's \<open>available_slot\<close>, and the rest of
  the run assigns the same slots as it does without the call.
\<close>

theorem display_all_sets_transparent:
  assumes "length ds = sz" "\<forall>d\<in>set ds. d < sz" "length mem = sz" "t \<le> sz"
    and "run_until diag sz ds mem t = Some (out, Inr slot)"
  shows "\<exists>slot' row out' end1 end2.
           display_all_sets slot sz = Some (Inr (slot', row)) \<and> compressed slot slot' \<and>
           (\<forall>r. is_root slot r \<longrightarrow> slot' ! r = slot ! r) \<and>
           (\<forall>s < sz. map_option (map_sum id fst) (representative_slot slot' s)
                      = map_option (map_sum id fst) (representative_slot slot s)) \<and>
           sched_loop diag' sz ds sz t slot' out = Some (out', Inr end1) \<and>
           sched_loop diag' sz ds sz t slot out = Some (out', Inr end2)"
proof -
  from run_until_in_range[OF assms(1,2,3,4), of diag] assms(5) have
    len: "length out = t" and d: "distinct out" and r: "\<forall>s\<in>set out. s < sz"
    and fo: "forest slot" and lens: "length slot = sz"
    and inv: "t < sz \<longrightarrow> sched_inv sz slot (set out)"
    by auto
  from display_all_sets_compressed[OF fo lens] obtain slot' row where
    disp: "display_all_sets slot sz = Some (Inr (slot', row))" and c: "compressed slot slot'"
    by blast
  have runs: "\<exists>out' end1 end2. sched_loop diag' sz ds sz t slot' out = Some (out', Inr end1) \<and>
           sched_loop diag' sz ds sz t slot out = Some (out', Inr end2)"
  proof (cases "t < sz")
    case False
    with assms(4) have "t = sz" by simp
    then show ?thesis by (simp add: sched_loop_done)
  next
    case True
    with inv have inv0: "sched_inv sz slot (set out)" by simp
    have inv': "sched_inv sz slot' (set out)" using inv0 c by (rule sched_inv_compressed)
    have b: "sz \<le> sz" "sz \<le> length ds" "\<forall>k < sz. ds ! k < sz" using assms(1,2) by auto
    from sched_loop_run[OF b refl _ inv0 len d r, of diag'] True obtain o2 end2 where
      run2: "sched_loop diag' sz ds sz t slot out = Some (o2, Inr end2)"
      and l2: "length o2 = sz" and t2: "take t o2 = out"
      and g2: "\<forall>k. t \<le> k \<and> k < sz \<longrightarrow> latest_free (set (take k o2)) sz (ds ! k) (o2 ! k)"
      by auto
    from sched_loop_run[OF b refl _ inv' len d r, of diag'] True obtain o1 end1 where
      run1: "sched_loop diag' sz ds sz t slot' out = Some (o1, Inr end1)"
      and l1: "length o1 = sz" and t1: "take t o1 = out"
      and g1: "\<forall>k. t \<le> k \<and> k < sz \<longrightarrow> latest_free (set (take k o1)) sz (ds ! k) (o1 ! k)"
      by auto
    have "o1 = o2" using l1 l2 _ g1 g2 by (rule greedy_run_unique) (simp add: t1 t2)
    with run1 run2 show ?thesis by blast
  qed
  have "\<forall>r. is_root slot r \<longrightarrow> slot' ! r = slot ! r"
    using c compressed_root_same by blast
  moreover have "map_option (map_sum id fst) (representative_slot slot' s)
                   = map_option (map_sum id fst) (representative_slot slot s)" if "s < sz" for s
  proof -
    from fo lens that obtain q where q: "root_of slot s q" by (auto simp: forest_def)
    then have q': "root_of slot' s q" using c by (simp add: compressed_root_of_iff)
    have "slot' ! q = slot ! q" using c q by (auto intro: compressed_root_same root_of_is_root)
    with representative_slot_root_of[OF q] representative_slot_root_of[OF q']
    show ?thesis by auto
  qed
  ultimately show ?thesis using disp c runs by blast
qed

text \<open>
  The witness is the state in which \<^verbatim>\<open>main\<close>, with \<open>size = 4\<close> and deadlines \<open>[1,3,0,0]\<close>,
  prints the table of its second iteration; the call changes the \<open>available_slot\<close>
  stored in slot 3 from 3 to 2.
\<close>

lemma second_table_state:
  "run_until (\<lambda>i. i < 1) 4 [1, 3, 0, 0] (replicate 4 \<lparr>available_slot = 7, parent = 9, rank = 4\<rparr>) 2
     = Some ([1, 3], Inr [\<lparr>available_slot = 0, parent = 0, rank = 1\<rparr>,
                          \<lparr>available_slot = 0, parent = 0, rank = 0\<rparr>,
                          \<lparr>available_slot = 2, parent = 2, rank = 1\<rparr>,
                          \<lparr>available_slot = 3, parent = 2, rank = 0\<rparr>])"
  by code_simp

theorem display_all_sets_transparent_witness:
  "\<exists>slot' row out' end1 end2.
     display_all_sets [\<lparr>available_slot = 0, parent = 0, rank = 1\<rparr>,
                       \<lparr>available_slot = 0, parent = 0, rank = 0\<rparr>,
                       \<lparr>available_slot = 2, parent = 2, rank = 1\<rparr>,
                       \<lparr>available_slot = 3, parent = 2, rank = 0\<rparr>] 4 = Some (Inr (slot', row)) \<and>
     compressed [\<lparr>available_slot = 0, parent = 0, rank = 1\<rparr>,
                 \<lparr>available_slot = 0, parent = 0, rank = 0\<rparr>,
                 \<lparr>available_slot = 2, parent = 2, rank = 1\<rparr>,
                 \<lparr>available_slot = 3, parent = 2, rank = 0\<rparr>] slot' \<and>
     (\<forall>r. is_root [\<lparr>available_slot = 0, parent = 0, rank = 1\<rparr>,
                   \<lparr>available_slot = 0, parent = 0, rank = 0\<rparr>,
                   \<lparr>available_slot = 2, parent = 2, rank = 1\<rparr>,
                   \<lparr>available_slot = 3, parent = 2, rank = 0\<rparr>] r \<longrightarrow>
          slot' ! r = [\<lparr>available_slot = 0, parent = 0, rank = 1\<rparr>,
                       \<lparr>available_slot = 0, parent = 0, rank = 0\<rparr>,
                       \<lparr>available_slot = 2, parent = 2, rank = 1\<rparr>,
                       \<lparr>available_slot = 3, parent = 2, rank = 0\<rparr>] ! r) \<and>
     (\<forall>s < 4. map_option (map_sum id fst) (representative_slot slot' s)
                = map_option (map_sum id fst)
                    (representative_slot [\<lparr>available_slot = 0, parent = 0, rank = 1\<rparr>,
                                          \<lparr>available_slot = 0, parent = 0, rank = 0\<rparr>,
                                          \<lparr>available_slot = 2, parent = 2, rank = 1\<rparr>,
                                          \<lparr>available_slot = 3, parent = 2, rank = 0\<rparr>] s)) \<and>
     sched_loop (\<lambda>i. True) 4 [1, 3, 0, 0] 4 2 slot' [1, 3] = Some (out', Inr end1) \<and>
     sched_loop (\<lambda>i. True) 4 [1, 3, 0, 0] 4 2 [\<lparr>available_slot = 0, parent = 0, rank = 1\<rparr>,
                                              \<lparr>available_slot = 0, parent = 0, rank = 0\<rparr>,
                                              \<lparr>available_slot = 2, parent = 2, rank = 1\<rparr>,
                                              \<lparr>available_slot = 3, parent = 2, rank = 0\<rparr>] [1, 3]
       = Some (out', Inr end2)"
  using display_all_sets_transparent[of "[1, 3, 0, 0]" 4
          "replicate 4 \<lparr>available_slot = 7, parent = 9, rank = 4\<rparr>" 2 "\<lambda>i. i < 1" "[1, 3]" _
          "\<lambda>i. True", OF _ _ _ _ second_table_state]
  by simp

end
